theory Spec2Isabelle
  imports Main "HOL-Library.Sublist" "HOL-Library.Word"
begin

section \<open>The statsite sink of go-metrics (statsite.go)\<close>

text \<open>
  The sink formats metric lines, pushes them without blocking into a buffered Go channel of
  capacity 4096, and a single goroutine (\<open>flushMetrics\<close>) moves them from the channel through
  a \<open>bufio.Writer\<close> to a TCP connection. The goroutine is written with labels and \<open>goto\<close>:
  CONNECT, the streaming \<open>for\<close> loop, WAIT and QUIT.

  A Go string is modelled as \<open>string\<close>, a list of bytes. Goroutines are interleaved: the
  producers' calls and the worker's loop iterations are atomic actions of one system state,
  the scheduler's and the network's choices are the events of a run. Real time is not
  modelled: the ticker of 100 ms and the \<open>time.After\<close> of 5 s are events that may occur
  whenever the worker waits for them. The field \<open>s.metricQueue\<close> is read by the producers
  and written by the worker at QUIT without a lock; both accesses are taken as atomic.
\<close>

subsection \<open>Go channels\<close>

text \<open>
  A \<open>chan string\<close> value is a reference that may be \<open>nil\<close> (\<open>None\<close>). The channel itself
  has its capacity (\<open>make(chan string, 4096)\<close>), the buffered elements in FIFO order and
  the closed flag. What Go's runtime does with a communication or a \<open>close\<close>: it proceeds,
  it is not ready (a \<open>select\<close> then looks at its other cases), or it panics.
\<close>

datatype panic = SendOnClosedChannel | CloseOfClosedChannel | CloseOfNilChannel | NilDereference

datatype 'a comm = Proceed 'a | NotReady | Panics panic

record chan =
  cap :: nat
  items :: "string list"
  closed :: bool

definition chan_len :: "chan option \<Rightarrow> nat" where
  \<comment> \<open>Go's \<open>len(ch)\<close>; 0 for a nil channel.\<close>
  "chan_len q = (case q of None \<Rightarrow> 0 | Some c \<Rightarrow> length (items c))"

definition chan_send :: "string \<Rightarrow> chan option \<Rightarrow> chan comm" where
  \<comment> \<open>\<open>ch <- m\<close>: never ready on a nil channel, a panic on a closed one, ready while
      the buffer has room.\<close>
  "chan_send m q =
     (case q of
        None \<Rightarrow> NotReady
      | Some c \<Rightarrow>
          if closed c then Panics SendOnClosedChannel
          else if length (items c) < cap c then Proceed (c\<lparr>items := items c @ [m]\<rparr>)
          else NotReady)"

definition chan_recv :: "chan option \<Rightarrow> (chan \<times> string \<times> bool) comm" where
  \<comment> \<open>\<open>v, ok := <-ch\<close>: the buffered elements first, also after \<open>close\<close>; then, on a
      closed channel, the zero value and \<open>ok = false\<close>; never ready on a nil channel.\<close>
  "chan_recv q =
     (case q of
        None \<Rightarrow> NotReady
      | Some c \<Rightarrow>
          (case items c of
             x # xs \<Rightarrow> Proceed (c\<lparr>items := xs\<rparr>, x, True)
           | [] \<Rightarrow> if closed c then Proceed (c, [], False) else NotReady))"

definition chan_close :: "chan option \<Rightarrow> panic + chan" where
  \<comment> \<open>\<open>close(ch)\<close> never waits: it closes an open channel and panics on any other.\<close>
  "chan_close q =
     (case q of
        None \<Rightarrow> Inl CloseOfNilChannel
      | Some c \<Rightarrow> if closed c then Inl CloseOfClosedChannel else Inr (c\<lparr>closed := True\<rparr>))"

subsection \<open>The sink and its key formatter\<close>

record StatsiteSink =
  addr :: string
  metricQueue :: "chan option"

text \<open>
  \<open>NewStatsiteSink\<close> builds the sink; the goroutine it starts is the worker of the system
  state below (\<open>start\<close>).
\<close>

definition NewStatsiteSink :: "string \<Rightarrow> StatsiteSink" where
  "NewStatsiteSink a =
     \<lparr>addr = a, metricQueue = Some \<lparr>cap = 4096, items = [], closed = False\<rparr>\<rparr>"

definition Shutdown :: "StatsiteSink \<Rightarrow> panic + StatsiteSink" where
  "Shutdown s =
     (case chan_close (metricQueue s) of
        Inr c \<Rightarrow> Inr (s\<lparr>metricQueue := Some c\<rparr>)
      | Inl p \<Rightarrow> Inl p)"

definition pushMetric :: "string \<Rightarrow> StatsiteSink \<Rightarrow> panic + StatsiteSink" where
  \<comment> \<open>\<open>select { case s.metricQueue <- m: default: }\<close>\<close>
  "pushMetric m s =
     (case chan_send m (metricQueue s) of
        Proceed c \<Rightarrow> Inr (s\<lparr>metricQueue := Some c\<rparr>)
      | NotReady \<Rightarrow> Inr s
      | Panics p \<Rightarrow> Inl p)"

text \<open>
  \<open>strings.Join\<close>: nothing for no element, else the first element and then, for each
  further one, the separator and the element, appended to a builder.
\<close>

definition Join :: "string list \<Rightarrow> string \<Rightarrow> string" where
  "Join elems sep =
     (case elems of [] \<Rightarrow> [] | x # xs \<Rightarrow> foldl (\<lambda>b s. b @ sep @ s) x xs)"

text \<open>
  The function literal handed to \<open>strings.Map\<close>: the case of the colon falls through to
  the case of the space.
\<close>

definition key_rune :: "char \<Rightarrow> char" where
  "key_rune r =
     (if r = CHR '':'' then CHR ''_''
      else if r = CHR '' '' then CHR ''_''
      else r)"

text \<open>
  \<open>strings.Map\<close> walks through the runes of the string as \<open>utf8.DecodeRuneInString\<close>
  finds them. \<open>rune_width\<close> is the decoder as far as the walk needs it: the number of
  bytes of the well-formed rune at the head of the string, and 0 where Go reports
  \<open>RuneError\<close> of width 1. The first byte gives the size of the rune and the range
  accepted for the second byte (the table \<open>first\<close> and \<open>acceptRanges\<close>); every further
  byte is a continuation byte.
\<close>

definition rune_size :: "nat \<Rightarrow> nat" where
  "rune_size s0 =
     (if s0 < 0x80 then 1
      else if s0 < 0xC2 then 0
      else if s0 < 0xE0 then 2
      else if s0 < 0xF0 then 3
      else if s0 < 0xF5 then 4
      else 0)"

definition second_ok :: "nat \<Rightarrow> nat \<Rightarrow> bool" where
  "second_ok s0 s1 =
     ((if s0 = 0xE0 then 0xA0 else if s0 = 0xF0 then 0x90 else 0x80) \<le> s1
      \<and> s1 \<le> (if s0 = 0xED then 0x9F else if s0 = 0xF4 then 0x8F else 0xBF))"

definition cont :: "nat \<Rightarrow> bool" where
  "cont b = (0x80 \<le> b \<and> b \<le> 0xBF)"

definition rune_width :: "nat list \<Rightarrow> nat" where
  "rune_width s =
     (case s of
        [] \<Rightarrow> 0
      | s0 # rest \<Rightarrow>
          if rune_size s0 \<le> 1 then rune_size s0
          else if length s < rune_size s0 then 0
          else if \<not> second_ok s0 (s ! 1) then 0
          else if rune_size s0 \<le> 2 then 2
          else if \<not> cont (s ! 2) then 0
          else if rune_size s0 \<le> 3 then 3
          else if \<not> cont (s ! 3) then 0
          else 4)"

text \<open>
  \<open>strings.Map\<close> writes, for every rune, the rune the function returns. The function of
  the sink changes two ASCII runes and returns every other rune as it is, so an ASCII byte
  is mapped, a well-formed longer rune is written back with its own bytes, and a byte that
  starts no well-formed rune comes out as the three bytes of U+FFFD, which is the rune the
  decoder reported for it.
\<close>

fun strings_Map :: "(char \<Rightarrow> char) \<Rightarrow> string \<Rightarrow> string" where
  "strings_Map f [] = []"
| "strings_Map f (c # cs) =
     (if rune_width (map of_char (c # cs)) = 0 then
        [CHR 0xEF, CHR 0xBF, CHR 0xBD] @ strings_Map f cs
      else if rune_width (map of_char (c # cs)) = 1 then f c # strings_Map f cs
      else take (rune_width (map of_char (c # cs))) (c # cs)
           @ strings_Map f (drop (rune_width (map of_char (c # cs)) - 1) cs))"

definition flattenKey :: "string list \<Rightarrow> string" where
  "flattenKey parts = (let joined = Join parts ''.'' in strings_Map key_rune joined)"

text \<open>
  Modelled from the spec: the type \<open>Label\<close> is declared in another file of the package;
  the sink reads its field \<open>Value\<close>, the label value of the spec.
\<close>

record Label =
  Name :: string
  Value :: string

definition flattenKeyLabels :: "string list \<Rightarrow> Label list \<Rightarrow> string" where
  \<comment> \<open>\<open>for _, label := range labels { parts = append(parts, label.Value) }\<close>\<close>
  "flattenKeyLabels parts labels =
     flattenKey (foldl (\<lambda>ps label. ps @ [Value label]) parts labels)"

subsection \<open>Formatting a line\<close>

text \<open>
  A \<open>float32\<close> is its 32 bits. \<open>Sprintf\<close> is fmt's interpreter for the two verbs the sink
  uses, \<open>%s\<close> with a string and \<open>%f\<close> with a float. For \<open>%f\<close> fmt calls
  \<open>strconv.AppendFloat(buf, v, 'f', 6, 32)\<close>, which takes the bits apart (sign, eight bits of
  exponent, 23 bits of mantissa), answers \<open>NaN\<close>, \<open>+Inf\<close> or \<open>-Inf\<close> for the exponent 255,
  and otherwise (\<open>bigFtoa\<close>) writes the exact value \<open>mant * 2^(exp - 150)\<close> in decimal,
  rounds it to six digits after the point (to nearest, a tie to the even digit) and prints
  the sign, the digits before the point, the point and the six digits after it (\<open>fmtF\<close>).
  The exact decimal is held here as the fraction it denotes, the rounded value as the
  number of millionths. fmt's \<open>fmtFloat\<close> then puts a plus sign in front of a result that
  has no sign and takes it away again unless the result is an infinity.
\<close>

type_synonym float32 = "32 word"

definition digit :: "nat \<Rightarrow> char" where
  "digit d = ''0123456789'' ! d"

function decimal :: "nat \<Rightarrow> string" where
  "decimal n = (if n < 10 then [digit n] else decimal (n div 10) @ [digit (n mod 10)])"
  by pat_completeness auto
termination
  by (relation "measure id") auto

declare decimal.simps [simp del]

definition fraction :: "nat \<Rightarrow> string" where
  "fraction n = map (\<lambda>i. digit (n div 10 ^ i mod 10)) [5, 4, 3, 2, 1, 0]"

definition fmtF :: "bool \<Rightarrow> nat \<Rightarrow> string" where
  \<comment> \<open>\<open>n\<close> is the rounded value in millionths\<close>
  "fmtF neg n =
     (if neg then ''-'' else []) @ decimal (n div 10 ^ 6) @ ''.'' @ fraction (n mod 10 ^ 6)"

definition Round :: "nat \<Rightarrow> nat \<Rightarrow> nat" where
  \<comment> \<open>\<open>num / den\<close> rounded to an integer, half to even (\<open>shouldRoundUp\<close>)\<close>
  "Round num den =
     (let q = num div den; r = num mod den
      in if den < 2 * r \<or> (2 * r = den \<and> odd q) then q + 1 else q)"

definition bigFtoa :: "bool \<Rightarrow> nat \<Rightarrow> nat \<Rightarrow> string" where
  \<comment> \<open>the value is \<open>mant * 2^(ex - 150)\<close>, \<open>ex\<close> the biased exponent\<close>
  "bigFtoa neg mant ex =
     (if 150 \<le> ex then fmtF neg (mant * 2 ^ (ex - 150) * 10 ^ 6)
      else fmtF neg (Round (mant * 10 ^ 6) (2 ^ (150 - ex))))"

definition AppendFloat :: "float32 \<Rightarrow> string" where
  "AppendFloat v =
     (let bits = unat v;
          neg = (bits div 2 ^ 31 \<noteq> 0);
          ex = bits div 2 ^ 23 mod 2 ^ 8;
          mant = bits mod 2 ^ 23
      in if ex = 255 then (if mant \<noteq> 0 then ''NaN'' else if neg then ''-Inf'' else ''+Inf'')
         else if ex = 0 then bigFtoa neg mant 1
         else bigFtoa neg (mant + 2 ^ 23) ex)"

definition fmtFloat :: "float32 \<Rightarrow> string" where
  "fmtFloat v =
     (let num = AppendFloat v;
          num = (if hd num = CHR ''-'' \<or> hd num = CHR ''+'' then num else CHR ''+'' # num)
      in if num ! 1 = CHR ''I'' \<or> num ! 1 = CHR ''N''
         then (if num ! 1 = CHR ''N'' then tl num else num)
         else if hd num \<noteq> CHR ''+'' then num else tl num)"

datatype arg = S string | F float32

fun Sprintf :: "string \<Rightarrow> arg list \<Rightarrow> string" where
  "Sprintf [] args = []"
| "Sprintf [c] args = [c]"
| "Sprintf (c # v # fmt) args =
     (if c = CHR ''%'' then
        (case args of
           S s # rest \<Rightarrow> if v = CHR ''s'' then s @ Sprintf fmt rest
                        else c # v # Sprintf fmt rest
         | F x # rest \<Rightarrow> if v = CHR ''f'' then fmtFloat x @ Sprintf fmt rest
                        else c # v # Sprintf fmt rest
         | [] \<Rightarrow> c # v # Sprintf fmt [])
      else c # Sprintf (v # fmt) args)"

definition SetGauge :: "string list \<Rightarrow> float32 \<Rightarrow> StatsiteSink \<Rightarrow> panic + StatsiteSink" where
  "SetGauge key val s =
     (let flatKey = flattenKey key
      in pushMetric (Sprintf ''%s:%f|g\<newline>'' [S flatKey, F val]) s)"

definition SetGaugeWithLabels ::
  "string list \<Rightarrow> float32 \<Rightarrow> Label list \<Rightarrow> StatsiteSink \<Rightarrow> panic + StatsiteSink" where
  "SetGaugeWithLabels key val labels s =
     (let flatKey = flattenKeyLabels key labels
      in pushMetric (Sprintf ''%s:%f|g\<newline>'' [S flatKey, F val]) s)"

definition EmitKey :: "string list \<Rightarrow> float32 \<Rightarrow> StatsiteSink \<Rightarrow> panic + StatsiteSink" where
  "EmitKey key val s =
     (let flatKey = flattenKey key
      in pushMetric (Sprintf ''%s:%f|kv\<newline>'' [S flatKey, F val]) s)"

definition IncrCounter :: "string list \<Rightarrow> float32 \<Rightarrow> StatsiteSink \<Rightarrow> panic + StatsiteSink" where
  "IncrCounter key val s =
     (let flatKey = flattenKey key
      in pushMetric (Sprintf ''%s:%f|c\<newline>'' [S flatKey, F val]) s)"

definition IncrCounterWithLabels ::
  "string list \<Rightarrow> float32 \<Rightarrow> Label list \<Rightarrow> StatsiteSink \<Rightarrow> panic + StatsiteSink" where
  "IncrCounterWithLabels key val labels s =
     (let flatKey = flattenKeyLabels key labels
      in pushMetric (Sprintf ''%s:%f|c\<newline>'' [S flatKey, F val]) s)"

definition AddSample :: "string list \<Rightarrow> float32 \<Rightarrow> StatsiteSink \<Rightarrow> panic + StatsiteSink" where
  "AddSample key val s =
     (let flatKey = flattenKey key
      in pushMetric (Sprintf ''%s:%f|ms\<newline>'' [S flatKey, F val]) s)"

definition AddSampleWithLabels ::
  "string list \<Rightarrow> float32 \<Rightarrow> Label list \<Rightarrow> StatsiteSink \<Rightarrow> panic + StatsiteSink" where
  "AddSampleWithLabels key val labels s =
     (let flatKey = flattenKeyLabels key labels
      in pushMetric (Sprintf ''%s:%f|ms\<newline>'' [S flatKey, F val]) s)"

subsection \<open>The network and the buffered writer\<close>

text \<open>
  A connection is what it has carried to the aggregator (\<open>wire\<close>) and whether it is still
  open. \<open>lines_in\<close> is a history variable: the lines the worker has handed to the writer of
  this connection, in order. The outcome of one \<open>Write\<close> on the socket is the network's
  choice: all bytes sent, or an error after some of them.
\<close>

datatype netres = NetOk | NetErr nat

record conn =
  wire :: string
  lines_in :: "string list"
  is_open :: bool

type_synonym net = "netres list \<times> conn list"

definition conn_Write :: "string \<Rightarrow> netres \<Rightarrow> conn \<Rightarrow> conn \<times> nat \<times> bool" where
  "conn_Write p r c =
     (case r of
        NetOk \<Rightarrow> (c\<lparr>wire := wire c @ p\<rparr>, length p, True)
      | NetErr n \<Rightarrow> (c\<lparr>wire := wire c @ take n p\<rparr>, min n (length p), False))"

definition net_write :: "nat \<Rightarrow> string \<Rightarrow> net \<Rightarrow> net \<times> nat \<times> bool" where
  \<comment> \<open>One \<open>Write\<close> on connection \<open>i\<close>; its outcome is the next one the event carries
      (success when the event says nothing more).\<close>
  "net_write i p nt =
     (case nt of (rs, cs) \<Rightarrow>
        if i < length cs then
          (case conn_Write p (case rs of [] \<Rightarrow> NetOk | r # _ \<Rightarrow> r) (cs ! i) of
             (c', n, ok) \<Rightarrow> ((tl rs, cs[i := c']), n, ok))
        else ((tl rs, cs), 0, False))"

text \<open>
  \<open>bufio.NewWriter(sock)\<close> is a writer with a buffer of 4096 bytes over the connection.
  \<open>Flush\<close> writes the buffer to the connection; after an error the unsent bytes stay and
  the error sticks. \<open>Write\<close> copies into the buffer and, while the bytes do not fit,
  writes through: an empty buffer is bypassed, a filled one is flushed.
\<close>

definition bufSize :: nat where
  "bufSize = 4096"

record Writer =
  wr :: nat
  buf :: string
  werr :: bool

definition Flush :: "Writer \<Rightarrow> net \<Rightarrow> Writer \<times> net \<times> bool" where
  "Flush w nt =
     (if werr w then (w, nt, False)
      else if buf w = [] then (w, nt, True)
      else
        (case net_write (wr w) (buf w) nt of
           (nt', n, ok) \<Rightarrow>
             if \<not> ok then (w\<lparr>buf := drop n (buf w), werr := True\<rparr>, nt', False)
             else (w\<lparr>buf := []\<rparr>, nt', True)))"

function Write_loop :: "Writer \<Rightarrow> string \<Rightarrow> net \<Rightarrow> Writer \<times> string \<times> net" where
  "Write_loop w p nt =
     (if bufSize - length (buf w) < length p \<and> \<not> werr w then
        (if buf w = [] then
           (case net_write (wr w) p nt of
              (nt', n, ok) \<Rightarrow> Write_loop (w\<lparr>werr := \<not> ok\<rparr>) (drop n p) nt')
         else
           (case Flush (w\<lparr>buf := buf w @ take (bufSize - length (buf w)) p\<rparr>) nt of
              (w', nt', ok) \<Rightarrow> Write_loop w' (drop (bufSize - length (buf w)) p) nt'))
      else (w, p, nt))"
  by pat_completeness auto
termination Write_loop
  apply (relation "measure (\<lambda>(w, p, nt).
           if werr w then 0 else 2 * length p + (if buf w = [] then 1 else 2))")
    apply simp
   apply (auto simp: net_write_def conn_Write_def bufSize_def
               split: prod.splits if_splits netres.splits list.splits)[1]
  apply (auto simp: Flush_def net_write_def conn_Write_def bufSize_def
              split: prod.splits if_splits netres.splits list.splits)
  done

declare Write_loop.simps [simp del]

definition Write :: "Writer \<Rightarrow> string \<Rightarrow> net \<Rightarrow> Writer \<times> net \<times> bool" where
  "Write w p nt =
     (case Write_loop w p nt of
        (w', p', nt') \<Rightarrow>
          if werr w' then (w', nt', False)
          else (w'\<lparr>buf := buf w' @ p'\<rparr>, nt', True))"

subsection \<open>The worker: flushMetrics\<close>

text \<open>
  The worker is at one of the labels of the source; \<open>STREAM\<close> is its first \<open>for\<close> loop
  and \<open>QUIT\<close> stands for the worker that has run the statement at \<open>QUIT\<close> and returned.
  Its local variables are \<open>sock\<close> (the connection's number) and \<open>buffered\<close>; \<open>deferred\<close>
  holds the receivers of the \<open>defer sock.Close()\<close> statements executed so far, the last
  one first. Deferred calls run when the function returns.
\<close>

datatype label = CONNECT | STREAM | WAIT | QUIT

record worker =
  pc :: label
  sock :: "nat option"
  buffered :: "Writer option"
  deferred :: "nat list"

datatype logmsg = ErrConnecting | ErrWriting | ErrFlushing

text \<open>
  The system: the sink, the worker, the connections dialled so far and the log. \<open>enq\<close> and
  \<open>deq\<close> are history variables: the lines the channel has accepted and the lines the worker
  has received from it.
\<close>

record system =
  sink :: StatsiteSink
  wk :: worker
  conns :: "conn list"
  logs :: "logmsg list"
  enq :: "string list"
  deq :: "string list"

text \<open>
  What the worker can do next is an event: \<open>net.Dial\<close> returns (with a connection or an
  error), a \<open>select\<close> takes its channel case, the ticker fires, the five seconds are over.
  \<open>Recv\<close> and \<open>Tick\<close> carry the outcomes of the socket writes they cause.
\<close>

datatype event = Dial bool | Recv "netres list" | Tick "netres list" | Elapsed

datatype outcome = Next system | Crash panic | Blocked

definition close_conn :: "conn list \<Rightarrow> nat \<Rightarrow> conn list" where
  "close_conn cs i = (if i < length cs then cs[i := (cs ! i)\<lparr>is_open := False\<rparr>] else cs)"

definition note_line :: "nat \<Rightarrow> string \<Rightarrow> conn list \<Rightarrow> conn list" where
  \<comment> \<open>keeps the history variable \<open>lines_in\<close>\<close>
  "note_line i m cs =
     (if i < length cs then cs[i := (cs ! i)\<lparr>lines_in := lines_in (cs ! i) @ [m]\<rparr>] else cs)"

definition quit :: "system \<Rightarrow> system" where
  \<comment> \<open>\<open>QUIT: s.metricQueue = nil\<close>, then the return runs the deferred calls\<close>
  "quit s =
     s\<lparr>sink := (sink s)\<lparr>metricQueue := None\<rparr>,
       wk := (wk s)\<lparr>pc := QUIT\<rparr>,
       conns := foldl close_conn (conns s) (deferred (wk s))\<rparr>"

definition flushMetrics :: "event \<Rightarrow> system \<Rightarrow> outcome" where
  "flushMetrics ev s =
     (case pc (wk s) of
        CONNECT \<Rightarrow>
          (case ev of
             Dial ok \<Rightarrow>
               if \<not> ok then
                 Next (s\<lparr>wk := (wk s)\<lparr>sock := None, pc := WAIT\<rparr>,
                         logs := logs s @ [ErrConnecting]\<rparr>)
               else
                 Next (s\<lparr>conns := conns s @ [\<lparr>wire = [], lines_in = [], is_open = True\<rparr>],
                         wk := (wk s)\<lparr>sock := Some (length (conns s)),
                                       deferred := length (conns s) # deferred (wk s),
                                       buffered := Some \<lparr>wr = length (conns s), buf = [],
                                                          werr = False\<rparr>,
                                       pc := STREAM\<rparr>\<rparr>)
           | _ \<Rightarrow> Blocked)
      | STREAM \<Rightarrow>
          (case ev of
             Recv rs \<Rightarrow>
               (case chan_recv (metricQueue (sink s)) of
                  NotReady \<Rightarrow> Blocked
                | Panics p \<Rightarrow> Crash p
                | Proceed (c, metric, ok) \<Rightarrow>
                    if \<not> ok then Next (quit s)
                    else
                      (case buffered (wk s) of
                         None \<Rightarrow> Crash NilDereference
                       | Some w \<Rightarrow>
                           (case Write w metric (rs, conns s) of
                              (w', (rs', cs'), wok) \<Rightarrow>
                                if \<not> wok then
                                  Next (s\<lparr>sink := (sink s)\<lparr>metricQueue := Some c\<rparr>,
                                          deq := deq s @ [metric],
                                          conns := note_line (wr w) metric cs',
                                          wk := (wk s)\<lparr>buffered := Some w', pc := WAIT\<rparr>,
                                          logs := logs s @ [ErrWriting]\<rparr>)
                                else
                                  Next (s\<lparr>sink := (sink s)\<lparr>metricQueue := Some c\<rparr>,
                                          deq := deq s @ [metric],
                                          conns := note_line (wr w) metric cs',
                                          wk := (wk s)\<lparr>buffered := Some w'\<rparr>\<rparr>))))
           | Tick rs \<Rightarrow>
               (case buffered (wk s) of
                  None \<Rightarrow> Crash NilDereference
                | Some w \<Rightarrow>
                    (case Flush w (rs, conns s) of
                       (w', (rs', cs'), fok) \<Rightarrow>
                         if \<not> fok then
                           Next (s\<lparr>conns := cs',
                                   wk := (wk s)\<lparr>buffered := Some w', pc := WAIT\<rparr>,
                                   logs := logs s @ [ErrFlushing]\<rparr>)
                         else Next (s\<lparr>conns := cs', wk := (wk s)\<lparr>buffered := Some w'\<rparr>\<rparr>)))
           | _ \<Rightarrow> Blocked)
      | WAIT \<Rightarrow>
          (case ev of
             Recv rs \<Rightarrow>
               (case chan_recv (metricQueue (sink s)) of
                  NotReady \<Rightarrow> Blocked
                | Panics p \<Rightarrow> Crash p
                | Proceed (c, metric, ok) \<Rightarrow>
                    if \<not> ok then Next (quit s)
                    else Next (s\<lparr>sink := (sink s)\<lparr>metricQueue := Some c\<rparr>,
                                 deq := deq s @ [metric]\<rparr>))
           | Elapsed \<Rightarrow> Next (s\<lparr>wk := (wk s)\<lparr>pc := CONNECT\<rparr>\<rparr>)
           | _ \<Rightarrow> Blocked)
      | QUIT \<Rightarrow> Blocked)"

subsection \<open>The system: producers and the worker\<close>

text \<open>
  \<open>Emit m\<close> is a caller in \<open>pushMetric m\<close> (every operation of the sink ends there),
  \<open>Close\<close> a caller in \<open>Shutdown\<close>, \<open>Work e\<close> a step of the worker. A panic in any
  goroutine ends the program.
\<close>

datatype action = Emit string | Close | Work event

definition sys_step :: "action \<Rightarrow> system \<Rightarrow> outcome" where
  "sys_step a s =
     (case a of
        Emit m \<Rightarrow>
          (case pushMetric m (sink s) of
             Inl p \<Rightarrow> Crash p
           | Inr k \<Rightarrow>
               Next (s\<lparr>sink := k,
                       enq := enq s @ (case chan_send m (metricQueue (sink s)) of
                                         Proceed c \<Rightarrow> [m] | _ \<Rightarrow> [])\<rparr>))
      | Close \<Rightarrow>
          (case Shutdown (sink s) of
             Inl p \<Rightarrow> Crash p
           | Inr k \<Rightarrow> Next (s\<lparr>sink := k\<rparr>))
      | Work e \<Rightarrow> flushMetrics e s)"

fun run :: "action list \<Rightarrow> system \<Rightarrow> outcome" where
  "run [] s = Next s"
| "run (a # as) s =
     (case sys_step a s of
        Next s' \<Rightarrow> run as s'
      | Crash p \<Rightarrow> Crash p
      | Blocked \<Rightarrow> Blocked)"

definition start :: "string \<Rightarrow> system" where
  \<comment> \<open>\<open>NewStatsiteSink\<close> has returned and the goroutine is about to dial\<close>
  "start a =
     \<lparr>sink = NewStatsiteSink a,
      wk = \<lparr>pc = CONNECT, sock = None, buffered = None, deferred = []\<rparr>,
      conns = [], logs = [], enq = [], deq = []\<rparr>"

subsection \<open>The key formatter in the words of the specification\<close>

text \<open>
  The contract of the key formatter as the specification words it: the label values follow
  the segments, everything is joined with a dot, and then spaces and colons become
  underscores while every other character stays.
\<close>

fun dot_join :: "string list \<Rightarrow> string" where
  "dot_join [] = []"
| "dot_join [x] = x"
| "dot_join (x # y # ys) = x @ ''.'' @ dot_join (y # ys)"

text \<open>The strings that are well-formed UTF-8: a sequence of characters.\<close>

fun well_formed :: "string \<Rightarrow> bool" where
  "well_formed [] = True"
| "well_formed (c # cs) =
     (0 < rune_width (map of_char (c # cs))
      \<and> well_formed (drop (rune_width (map of_char (c # cs)) - 1) cs))"

definition spec_flatten :: "string list \<Rightarrow> string list \<Rightarrow> string" where
  "spec_flatten segments label_values =
     map (\<lambda>c. if c = CHR '' '' \<or> c = CHR '':'' then CHR ''_'' else c)
       (dot_join (segments @ label_values))"

subsection \<open>Notions the properties are stated with\<close>

text \<open>
  \<open>try_push\<close> is the contract of the submission queue in the words of the specification:
  append the line unless the queue is full (or gone), and in that case change nothing.
\<close>

definition try_push :: "string \<Rightarrow> StatsiteSink \<Rightarrow> StatsiteSink" where
  "try_push m s =
     (case metricQueue s of
        None \<Rightarrow> s
      | Some c \<Rightarrow>
          if length (items c) < cap c
          then s\<lparr>metricQueue := Some (c\<lparr>items := items c @ [m]\<rparr>)\<rparr>
          else s)"

definition queue_closed :: "StatsiteSink \<Rightarrow> bool" where
  "queue_closed s = (case metricQueue s of None \<Rightarrow> False | Some c \<Rightarrow> closed c)"

definition qitems :: "StatsiteSink \<Rightarrow> string list" where
  "qitems s = (case metricQueue s of None \<Rightarrow> [] | Some c \<Rightarrow> items c)"

definition written :: "system \<Rightarrow> string list" where
  \<comment> \<open>every line handed to a connection's writer, the connections in the order they were dialled\<close>
  "written s = concat (map lines_in (conns s))"

definition wire_upd :: "nat \<Rightarrow> string \<Rightarrow> conn list \<Rightarrow> conn list" where
  "wire_upd i x cs = cs[i := (cs ! i)\<lparr>wire := x\<rparr>]"

definition is_recv :: "action \<Rightarrow> bool" where
  "is_recv a = (case a of Work (Recv rs) \<Rightarrow> True | _ \<Rightarrow> False)"

definition is_tick :: "action \<Rightarrow> bool" where
  "is_tick a = (case a of Work (Tick rs) \<Rightarrow> True | _ \<Rightarrow> False)"

text \<open>
  The invariant of the reachable states. While the worker streams, its writer sits on the
  connection dialled last, has no error, and the bytes on that wire followed by the bytes in
  the buffer are exactly the lines handed to the writer. Every wire carries a prefix of the
  lines handed to its writer; these lines, over all connections, are a subsequence of the
  lines received from the channel; and the channel holds what was accepted and not yet
  received.
\<close>

definition streaming_ok :: "system \<Rightarrow> bool" where
  "streaming_ok s =
     (case buffered (wk s) of
        None \<Rightarrow> False
      | Some w \<Rightarrow>
          conns s \<noteq> [] \<and> Suc (wr w) = length (conns s) \<and> \<not> werr w
          \<and> wire (last (conns s)) @ buf w = concat (lines_in (last (conns s))))"

definition sys_inv :: "system \<Rightarrow> bool" where
  "sys_inv s =
     (enq s = deq s @ qitems (sink s)
      \<and> subseq (written s) (deq s)
      \<and> list_all (\<lambda>c. prefix (wire c) (concat (lines_in c))) (conns s)
      \<and> (pc (wk s) = STREAM \<longrightarrow> streaming_ok s))"

text \<open>
  Two facts about the control state: the worker has returned exactly when the sink's
  channel reference is \<open>nil\<close>, and a close is deferred for every connection dialled.
\<close>

definition ctl_inv :: "system \<Rightarrow> bool" where
  "ctl_inv s =
     ((pc (wk s) = QUIT) = (metricQueue (sink s) = None)
      \<and> deferred (wk s) = rev [0..<length (conns s)])"

text \<open>
  The state a run from the start reaches, for the examples: the theorems are applied to
  states the program can be in.
\<close>

definition state_after :: "action list \<Rightarrow> system" where
  "state_after acts =
     (case run acts (start ''statsite:8125'') of
        Next s \<Rightarrow> s
      | Crash p \<Rightarrow> start ''statsite:8125''
      | Blocked \<Rightarrow> start ''statsite:8125'')"

text \<open>What a connection has carried and what its writer was handed.\<close>

definition carried :: "conn \<Rightarrow> string \<times> string list" where
  "carried c = (wire c, lines_in c)"

text \<open>
  What a \<open>float32\<close> is worth, to say what \<open>%f\<close> must print. The bits are finite unless the
  exponent is 255; the sign is the top bit; the absolute value of a finite \<open>float32\<close> is
  the fraction \<open>f32_num / f32_den\<close>, that is \<open>mantissa * 2^(exponent - 150)\<close>, with the
  hidden bit and the exponent 1 of the subnormal numbers. \<open>f32_scaled\<close> is that value in
  millionths, rounded.
\<close>

definition f32_finite :: "float32 \<Rightarrow> bool" where
  "f32_finite v = (unat v div 2 ^ 23 mod 2 ^ 8 \<noteq> 255)"

definition f32_neg :: "float32 \<Rightarrow> bool" where
  "f32_neg v = (unat v div 2 ^ 31 \<noteq> 0)"

definition f32_mant :: "float32 \<Rightarrow> nat" where
  "f32_mant v = (if unat v div 2 ^ 23 mod 2 ^ 8 = 0 then unat v mod 2 ^ 23
                 else 2 ^ 23 + unat v mod 2 ^ 23)"

definition f32_exp :: "float32 \<Rightarrow> nat" where
  "f32_exp v = (if unat v div 2 ^ 23 mod 2 ^ 8 = 0 then 1 else unat v div 2 ^ 23 mod 2 ^ 8)"

definition f32_num :: "float32 \<Rightarrow> nat" where
  "f32_num v = f32_mant v * 2 ^ (f32_exp v - 150)"

definition f32_den :: "float32 \<Rightarrow> nat" where
  "f32_den v = 2 ^ (150 - f32_exp v)"

definition f32_scaled :: "float32 \<Rightarrow> nat" where
  "f32_scaled v =
     (if 150 \<le> f32_exp v then f32_mant v * 2 ^ (f32_exp v - 150) * 10 ^ 6
      else Round (f32_mant v * 10 ^ 6) (2 ^ (150 - f32_exp v)))"

text \<open>
  A decimal rendering is an optional minus sign, one digit or more, a point, and one digit
  or more; \<open>digits_val\<close> is the number a string of digits denotes.
\<close>

definition is_digit :: "char \<Rightarrow> bool" where
  "is_digit c = (48 \<le> (of_char c :: nat) \<and> (of_char c :: nat) \<le> 57)"

definition digits_val :: "string \<Rightarrow> nat" where
  "digits_val s = foldl (\<lambda>a c. 10 * a + (of_char c - 48)) 0 s"

definition decimal_shape :: "string \<Rightarrow> bool" where
  "decimal_shape s =
     (let t = (case s of [] \<Rightarrow> s | c # r \<Rightarrow> if c = CHR ''-'' then r else s);
          ip = takeWhile is_digit t;
          r = dropWhile is_digit t
      in ip \<noteq> [] \<and>
         (case r of [] \<Rightarrow> False | c # fp \<Rightarrow> c = CHR ''.'' \<and> fp \<noteq> [] \<and> list_all is_digit fp))"

section \<open>Properties\<close>

subsection \<open>Key formatting\<close>

lemma dot_join_head: "dot_join ((a @ b) # ys) = a @ dot_join (b # ys)"
  by (cases ys) simp_all

lemma foldl_dot_join: "foldl (\<lambda>b s. b @ ''.'' @ s) x xs = dot_join (x # xs)"
proof (induction xs arbitrary: x)
  case Nil
  show ?case by simp
next
  case (Cons y ys)
  have "foldl (\<lambda>b s. b @ ''.'' @ s) (x @ ''.'' @ y) ys = dot_join ((x @ ''.'' @ y) # ys)"
    by (rule Cons.IH)
  also have "\<dots> = x @ dot_join ((''.'' @ y) # ys)"
    by (rule dot_join_head)
  also have "\<dots> = x @ ''.'' @ dot_join (y # ys)"
    by (simp only: dot_join_head)
  finally show ?case by simp
qed

lemma Join_dot: "Join elems ''.'' = dot_join elems"
  by (cases elems) (simp_all only: Join_def foldl_dot_join list.case dot_join.simps)

lemma append_labels:
  "foldl (\<lambda>ps label. ps @ [Value label]) parts labels = parts @ map Value labels"
  by (induction labels arbitrary: parts) simp_all

lemma key_rune_alt:
  "key_rune = (\<lambda>c. if c = CHR '' '' \<or> c = CHR '':'' then CHR ''_'' else c)"
  by (auto simp: key_rune_def fun_eq_iff)

text \<open>The walk of \<open>strings.Map\<close> over a well-formed string is the bytewise map.\<close>

lemma rune_size_le: "rune_size b \<le> 4"
  by (simp add: rune_size_def)

lemma rune_size_high: "2 \<le> rune_size b \<Longrightarrow> 0x80 \<le> b"
  by (simp add: rune_size_def split: if_splits)

lemma second_ok_high: "second_ok s0 s1 \<Longrightarrow> 0x80 \<le> s1"
  by (simp add: second_ok_def split: if_splits)

lemma cont_high: "cont b \<Longrightarrow> 0x80 \<le> b"
  by (simp add: cont_def)

lemma rune_width_facts:
  assumes "2 \<le> rune_width s"
  shows "rune_width s = rune_size (s ! 0)" and "rune_width s \<le> length s"
    and "second_ok (s ! 0) (s ! 1)"
    and "3 \<le> rune_width s \<longrightarrow> cont (s ! 2)" and "4 \<le> rune_width s \<longrightarrow> cont (s ! 3)"
proof -
  from assms obtain s0 rest where s: "s = s0 # rest"
    by (cases s) (auto simp: rune_width_def)
  from assms have big: "\<not> rune_size s0 \<le> 1"
    by (auto simp: rune_width_def s split: if_splits)
  from assms big have len: "\<not> length s < rune_size s0"
    by (auto simp: rune_width_def s split: if_splits)
  from assms big len have ok: "second_ok s0 (s ! 1)"
    by (auto simp: rune_width_def s split: if_splits)
  have le: "rune_size s0 \<le> 4" by (rule rune_size_le)
  show "rune_width s = rune_size (s ! 0)"
    using assms big len ok le by (auto simp: rune_width_def s split: if_splits)
  show "rune_width s \<le> length s"
    using assms big len ok le by (auto simp: rune_width_def s split: if_splits)
  show "second_ok (s ! 0) (s ! 1)" using ok by (simp add: s)
  show "3 \<le> rune_width s \<longrightarrow> cont (s ! 2)"
    using assms big len ok le by (auto simp: rune_width_def s split: if_splits)
  show "4 \<le> rune_width s \<longrightarrow> cont (s ! 3)"
    using assms big len ok le by (auto simp: rune_width_def s split: if_splits)
qed


lemma rune_width_le: "rune_width s \<le> length s"
proof (cases "2 \<le> rune_width s")
  case True
  then show ?thesis by (rule rune_width_facts(2))
next
  case False
  then have "rune_width s \<le> 1" by simp
  moreover have "rune_width [] = 0" by (simp add: rune_width_def)
  ultimately show ?thesis by (cases s) auto
qed

lemma rune_width_high:
  assumes "2 \<le> rune_width s" and "i < rune_width s"
  shows "0x80 \<le> s ! i"
proof -
  note f = rune_width_facts[OF assms(1)]
  have "rune_width s \<le> 4" using f(1) rune_size_le[of "s ! 0"] by simp
  with assms(2) consider "i = 0" | "i = 1" | "i = 2" | "i = 3" by linarith
  then show ?thesis
  proof cases
    case 1
    with assms(1) f(1) show ?thesis by (simp add: rune_size_high)
  next
    case 2
    with f(3) show ?thesis by (simp add: second_ok_high)
  next
    case 3
    with assms(2) f(4) show ?thesis by (simp add: cont_high)
  next
    case 4
    with assms(2) f(5) show ?thesis by (simp add: cont_high)
  qed
qed

lemma rune_width_append:
  assumes "0 < rune_width xs"
  shows "rune_width (xs @ ys) = rune_width xs"
proof -
  from assms obtain s0 rest where xs: "xs = s0 # rest"
    by (cases xs) (auto simp: rune_width_def)
  show ?thesis
  proof (cases "rune_size s0 \<le> 1")
    case True
    then show ?thesis by (simp add: rune_width_def xs)
  next
    case False
    with assms have w2: "2 \<le> rune_width xs"
      by (auto simp: rune_width_def xs split: if_splits)
    note f = rune_width_facts[OF w2]
    have sz: "rune_size s0 = rune_width xs" using f(1) by (simp add: xs)
    have len: "rune_width xs \<le> length xs" by (rule f(2))
    have nth: "\<And>i. i < rune_width xs \<Longrightarrow> (xs @ ys) ! i = xs ! i"
      using len by (simp add: nth_append)
    have le4: "rune_width xs \<le> 4" using sz rune_size_le[of s0] by simp
    have a: "rune_width (xs @ ys) =
       (if length (xs @ ys) < rune_size s0 then 0
          else if \<not> second_ok s0 ((xs @ ys) ! 1) then 0
          else if rune_size s0 \<le> 2 then 2
          else if \<not> cont ((xs @ ys) ! 2) then 0
          else if rune_size s0 \<le> 3 then 3
          else if \<not> cont ((xs @ ys) ! 3) then 0
          else 4)"
      using False by (simp add: rune_width_def xs)
    have b: "rune_width xs =
       (if length xs < rune_size s0 then 0
          else if \<not> second_ok s0 (xs ! 1) then 0
          else if rune_size s0 \<le> 2 then 2
          else if \<not> cont (xs ! 2) then 0
          else if rune_size s0 \<le> 3 then 3
          else if \<not> cont (xs ! 3) then 0
          else 4)"
      using False by (simp add: rune_width_def xs)
    have n1: "(xs @ ys) ! 1 = xs ! 1" using w2 by (intro nth) simp
    have l: "\<not> length (xs @ ys) < rune_size s0" using len sz by simp
    have l': "\<not> length xs < rune_size s0" using len sz by simp
    show ?thesis
    proof (cases "rune_size s0 \<le> 2")
      case True
      with a b n1 l l' show ?thesis by simp
    next
      case s3: False
      then have "(xs @ ys) ! 2 = xs ! 2" using sz by (intro nth) simp
      note n2 = this
      show ?thesis
      proof (cases "rune_size s0 \<le> 3")
        case True
        with a b n1 n2 l l' s3 show ?thesis by simp
      next
        case s4: False
        then have "(xs @ ys) ! 3 = xs ! 3" using sz by (intro nth) simp
        with a b n1 n2 l l' s3 s4 show ?thesis by simp
      qed
    qed
  qed
qed

lemma key_rune_high: "(0x80::nat) \<le> of_char c \<Longrightarrow> key_rune c = c"
  by (auto simp: key_rune_def)

lemma map_split: "xs = ys @ zs \<Longrightarrow> map f ys = ys \<Longrightarrow> map f xs = ys @ map f zs"
  by simp

lemma Map_well_formed: "well_formed s \<Longrightarrow> strings_Map key_rune s = map key_rune s"
proof (induction s rule: well_formed.induct)
  case 1
  show ?case by simp
next
  case (2 c cs)
  let ?n = "rune_width (map of_char (c # cs))"
  from "2.prems" have n: "0 < ?n" and wf: "well_formed (drop (?n - 1) cs)" by simp_all
  from "2.IH"[OF wf]
  have ih: "strings_Map key_rune (drop (?n - 1) cs) = map key_rune (drop (?n - 1) cs)" .
  show ?case
  proof (cases "?n = 1")
    case True
    with ih show ?thesis by simp
  next
    case False
    with n have n2: "2 \<le> ?n" by simp
    have len: "?n \<le> length (c # cs)"
      using rune_width_le[of "map of_char (c # cs)"] by simp
    have hi: "map key_rune (take ?n (c # cs)) = take ?n (c # cs)"
    proof (rule map_idI)
      fix x assume "x \<in> set (take ?n (c # cs))"
      then obtain i where i: "i < ?n" "x = (c # cs) ! i"
        using len by (auto simp: in_set_conv_nth)
      have "map of_char (c # cs) ! i = (of_char ((c # cs) ! i) :: nat)"
        using i(1) len by (intro nth_map) simp
      with rune_width_high[OF n2 i(1)] i(2)
      have "(0x80::nat) \<le> of_char x" by (simp only:)
      then show "key_rune x = x" by (rule key_rune_high)
    qed
    have split: "c # cs = take ?n (c # cs) @ drop (?n - 1) cs"
      using n by (cases ?n) simp_all
    have 1: "map key_rune (c # cs) = take ?n (c # cs) @ map key_rune (drop (?n - 1) cs)"
      by (rule map_split[OF split hi])
    have 2: "strings_Map key_rune (c # cs) =
        take ?n (c # cs) @ strings_Map key_rune (drop (?n - 1) cs)"
      using n False by simp
    show ?thesis
      unfolding 1 2 ih by (rule refl)
  qed
qed

lemma well_formed_append: "well_formed a \<Longrightarrow> well_formed b \<Longrightarrow> well_formed (a @ b)"
proof (induction a rule: well_formed.induct)
  case 1
  then show ?case by simp
next
  case (2 c cs)
  let ?n = "rune_width (map of_char (c # cs))"
  from "2.prems" have n: "0 < ?n" and wf: "well_formed (drop (?n - 1) cs)" by simp_all
  have same: "rune_width (map of_char ((c # cs) @ b)) = ?n"
    using rune_width_append[OF n, of "map of_char b"] by simp
  have "?n \<le> Suc (length cs)"
    using rune_width_le[of "map of_char (c # cs)"] by simp
  then have "drop (?n - 1) (cs @ b) = drop (?n - 1) cs @ b"
    by simp
  with "2.IH"[OF wf "2.prems"(2)] n same show ?case by simp
qed

lemma well_formed_dot_join: "list_all well_formed ps \<Longrightarrow> well_formed (dot_join ps)"
proof (induction ps rule: dot_join.induct)
  case 1
  show ?case by simp
next
  case (2 x)
  then show ?case by simp
next
  case (3 x y ys)
  have dot: "well_formed ''.''"
    by (simp add: rune_width_def rune_size_def)
  from 3 have "well_formed x" "well_formed (dot_join (y # ys))" by simp_all
  with dot have "well_formed (x @ ''.'' @ dot_join (y # ys))"
    by (intro well_formed_append)
  then show ?case by simp
qed

text \<open>
  C7 says that for every sequence of non-empty segments the key is the join of the segments
  with every space and colon replaced and all other characters unchanged. A segment is a
  Go string, any bytes: for the segment of the single byte \<open>0xFF\<close>, which is no character
  of UTF-8, \<open>strings.Map\<close> decodes the rune U+FFFD and writes its three bytes, where the
  specification keeps the byte.
\<close>

theorem flattenKey_ill_formed:
  "flattenKey [[CHR 0xFF]] = [CHR 0xEF, CHR 0xBF, CHR 0xBD]
   \<and> spec_flatten [[CHR 0xFF]] [] = [CHR 0xFF]
   \<and> flattenKeyLabels [''svc''] [\<lparr>Name = ''dc'', Value = [CHR 0xFF]\<rparr>] =
       ''svc.'' @ [CHR 0xEF, CHR 0xBF, CHR 0xBD]
   \<and> spec_flatten [''svc''] [[CHR 0xFF]] = ''svc.'' @ [CHR 0xFF]"
  by (simp add: flattenKey_def flattenKeyLabels_def Join_def rune_width_def rune_size_def
      spec_flatten_def key_rune_def)

text \<open>
  C7, amended: for all segments and all label values that are well-formed UTF-8 (sequences
  of characters, empty or not), \<open>flattenKeyLabels\<close> computes what the specification says:
  the label values appended after the segments in their order, the join with dots, then
  every space and colon replaced by an underscore and nothing else changed; \<open>flattenKey\<close>
  is the same with no labels. The two examples of the specification hold:
  \<open>flatten(["a","b c"]) = "a.b_c"\<close> and \<open>flatten(["svc"], labels=["x:y"]) = "svc.x_y"\<close>.
\<close>

theorem flattenKey_spec:
  "(list_all well_formed parts \<and> list_all (\<lambda>l. well_formed (Value l)) labels \<longrightarrow>
      flattenKeyLabels parts labels = spec_flatten parts (map Value labels)
      \<and> flattenKey parts = spec_flatten parts [])
   \<and> flattenKey [''a'', ''b c''] = ''a.b_c''
   \<and> flattenKeyLabels [''svc''] [\<lparr>Name = n, Value = ''x:y''\<rparr>] = ''svc.x_y''"
proof (intro conjI impI)
  assume h: "list_all well_formed parts \<and> list_all (\<lambda>l. well_formed (Value l)) labels"
  then have "list_all well_formed (parts @ map Value labels)"
    by (auto simp: list_all_iff)
  then have "well_formed (dot_join (parts @ map Value labels))"
    by (rule well_formed_dot_join)
  then show "flattenKeyLabels parts labels = spec_flatten parts (map Value labels)"
    by (simp add: flattenKeyLabels_def flattenKey_def Join_dot append_labels spec_flatten_def
        key_rune_alt Map_well_formed[unfolded key_rune_alt])
  from h have "well_formed (dot_join parts)"
    by (simp add: well_formed_dot_join)
  then show "flattenKey parts = spec_flatten parts []"
    by (simp add: flattenKey_def Join_dot spec_flatten_def key_rune_alt
        Map_well_formed[unfolded key_rune_alt])
next
  show "flattenKey [''a'', ''b c''] = ''a.b_c''"
    by (simp add: flattenKey_def Join_def key_rune_def rune_width_def rune_size_def)
  show "flattenKeyLabels [''svc''] [\<lparr>Name = n, Value = ''x:y''\<rparr>] = ''svc.x_y''"
    by (simp add: flattenKeyLabels_def flattenKey_def Join_def key_rune_def rune_width_def
        rune_size_def)
qed

theorem flattenKey_spec_witness:
  "list_all well_formed [''a b'', [CHR 0xC3, CHR 0xA9]]
   \<and> list_all (\<lambda>l. well_formed (Value l)) [\<lparr>Name = ''dc'', Value = ''x:y''\<rparr>]
   \<and> flattenKeyLabels [''a b'', [CHR 0xC3, CHR 0xA9]] [\<lparr>Name = ''dc'', Value = ''x:y''\<rparr>] =
       ''a_b.'' @ [CHR 0xC3, CHR 0xA9] @ ''.x_y''
   \<and> flattenKey [''a b'', [CHR 0xC3, CHR 0xA9]] = ''a_b.'' @ [CHR 0xC3, CHR 0xA9]"
  using flattenKey_spec [of "[''a b'', [CHR 0xC3, CHR 0xA9]]"
      "[\<lparr>Name = ''dc'', Value = ''x:y''\<rparr>]" "''n''"]
  by (simp add: spec_flatten_def rune_width_def rune_size_def second_ok_def cont_def)

subsection \<open>Emitting after Shutdown\<close>

text \<open>
  C1: a push after \<open>Shutdown\<close> is meant to be dropped without a panic. In the code the
  send on the closed channel panics: \<open>Shutdown\<close> followed by a push, before the worker has
  seen the closed channel, ends the program.
\<close>

theorem push_after_Shutdown_panics:
  "run [Close, Emit m] (start a) = Crash SendOnClosedChannel"
  by (simp add: sys_step_def start_def NewStatsiteSink_def Shutdown_def chan_close_def
      pushMetric_def chan_send_def)

text \<open>
  Only once the worker has seen the closed channel and set \<open>s.metricQueue\<close> to \<open>nil\<close> is
  a later push the no-op the statement at \<open>QUIT\<close> is there for.
\<close>

lemma push_after_QUIT_dropped:
  "run [Close, Work (Dial False), Work (Recv []), Emit m] (start a) =
     Next \<lparr>sink = \<lparr>addr = a, metricQueue = None\<rparr>,
           wk = \<lparr>pc = QUIT, sock = None, buffered = None, deferred = []\<rparr>,
           conns = [], logs = [ErrConnecting], enq = [], deq = []\<rparr>"
  by (simp add: sys_step_def start_def NewStatsiteSink_def Shutdown_def chan_close_def
      pushMetric_def chan_send_def flushMetrics_def chan_recv_def quit_def)

subsection \<open>The buffered writer keeps the bytes in order\<close>

text \<open>
  A \<open>Flush\<close> or a \<open>Write\<close> touches the wire of the writer's own connection only, and moves
  bytes from the front of what is pending to the end of the wire: the wire followed by the
  buffer, followed by the bytes still to be written, stays the same string. A failed
  \<open>Write\<close> loses a tail of it.
\<close>

lemma wire_upd_length [simp]: "length (wire_upd i x cs) = length cs"
  by (simp add: wire_upd_def)

lemma wire_upd_nth [simp]: "i < length cs \<Longrightarrow> wire_upd i x cs ! i = (cs ! i)\<lparr>wire := x\<rparr>"
  by (simp add: wire_upd_def)

lemma wire_upd_nth_other [simp]: "j \<noteq> i \<Longrightarrow> wire_upd i x cs ! j = cs ! j"
  by (simp add: wire_upd_def)

lemma wire_upd_twice [simp]: "wire_upd i y (wire_upd i x cs) = wire_upd i y cs"
  by (cases "i < length cs") (simp_all add: wire_upd_def list_update_beyond)

lemma wire_upd_same [simp]: "wire_upd i (wire (cs ! i)) cs = cs"
  by (simp add: wire_upd_def)

lemma take_min_length [simp]: "take (min k (length p)) p = take k p"
  by (cases "k \<le> length p") (simp_all add: min_def)

lemma Write_loop_stop:
  "\<not> (bufSize - length (buf w) < length p \<and> \<not> werr w) \<Longrightarrow> Write_loop w p nt = (w, p, nt)"
  by (subst Write_loop.simps) auto

lemma net_write_shape:
  assumes "net_write i p nt = (nt', n, ok)" and "i < length (snd nt)"
  shows "snd nt' = wire_upd i (wire (snd nt ! i) @ take n p) (snd nt)
         \<and> n \<le> length p \<and> (ok \<longrightarrow> n = length p)"
  using assms
  by (cases nt) (auto simp: net_write_def conn_Write_def wire_upd_def split: netres.splits list.splits)

lemma Flush_shape:
  assumes "Flush w nt = (w', nt', ok)" and "wr w < length (snd nt)"
  shows "\<exists>x. snd nt' = wire_upd (wr w) x (snd nt)
           \<and> x @ buf w' = wire (snd nt ! wr w) @ buf w
           \<and> wr w' = wr w \<and> (ok \<longleftrightarrow> \<not> werr w')"
proof (cases "werr w \<or> buf w = []")
  case True
  with assms(1) have "w' = w" "nt' = nt" "ok \<longleftrightarrow> \<not> werr w"
    by (auto simp: Flush_def split: if_splits)
  then show ?thesis
    by (intro exI[of _ "wire (snd nt ! wr w)"]) simp
next
  case False
  obtain nt1 n ok1 where nw: "net_write (wr w) (buf w) nt = (nt1, n, ok1)"
    by (cases "net_write (wr w) (buf w) nt") auto
  from net_write_shape[OF nw assms(2)]
  have sh: "snd nt1 = wire_upd (wr w) (wire (snd nt ! wr w) @ take n (buf w)) (snd nt)"
    and n: "n \<le> length (buf w)" "ok1 \<longrightarrow> n = length (buf w)"
    by auto
  from assms(1) False nw
  have res: "nt' = nt1" "ok = ok1" "wr w' = wr w" "werr w' = (\<not> ok1)"
    "buf w' = (if ok1 then [] else drop n (buf w))"
    by (auto simp: Flush_def split: if_splits)
  show ?thesis
    using sh n res
    by (intro exI[of _ "wire (snd nt ! wr w) @ take n (buf w)"]) auto
qed

lemma Write_loop_shape:
  "Write_loop w p nt = (w', p', nt') \<Longrightarrow> wr w < length (snd nt) \<Longrightarrow>
     \<exists>x. snd nt' = wire_upd (wr w) x (snd nt)
       \<and> x @ buf w' @ p' = wire (snd nt ! wr w) @ buf w @ p
       \<and> wr w' = wr w"
proof (induction w p nt arbitrary: w' p' nt' rule: Write_loop.induct)
  case (1 w p nt)
  let ?i = "wr w"
  show ?case
  proof (cases "bufSize - length (buf w) < length p \<and> \<not> werr w")
    case False
    then have "Write_loop w p nt = (w, p, nt)"
      by (rule Write_loop_stop)
    with "1.prems"(1) have "w' = w" "p' = p" "nt' = nt"
      by simp_all
    then show ?thesis
      by (intro exI[of _ "wire (snd nt ! wr w)"]) simp
  next
    case go: True
    show ?thesis
    proof (cases "buf w = []")
      case True
      obtain nt1 n ok where nw: "net_write ?i p nt = (nt1, n, ok)"
        by (cases "net_write ?i p nt") auto
      from net_write_shape[OF nw "1.prems"(2)]
      have sh: "snd nt1 = wire_upd ?i (wire (snd nt ! ?i) @ take n p) (snd nt)" by simp
      have rec: "Write_loop (w\<lparr>werr := \<not> ok\<rparr>) (drop n p) nt1 = (w', p', nt')"
        using "1.prems"(1) go True nw by (subst (asm) Write_loop.simps) simp
      have len: "wr (w\<lparr>werr := \<not> ok\<rparr>) < length (snd nt1)"
        using sh "1.prems"(2) by simp
      from "1.IH"(1)[OF go True nw[symmetric] refl rec len]
      obtain x where x: "snd nt' = wire_upd ?i x (snd nt1)"
        "x @ buf w' @ p' = wire (snd nt1 ! ?i) @ buf w @ drop n p" "wr w' = ?i"
        by auto
      have "snd nt' = wire_upd ?i x (snd nt)"
        using x(1) sh by simp
      moreover have "x @ buf w' @ p' = wire (snd nt ! ?i) @ buf w @ p"
        unfolding x(2) using sh "1.prems"(2) True by simp
      ultimately show ?thesis
        using x(3) by blast
    next
      case False
      let ?k = "bufSize - length (buf w)"
      let ?w1 = "w\<lparr>buf := buf w @ take ?k p\<rparr>"
      obtain w2 nt1 ok where fl: "Flush ?w1 nt = (w2, nt1, ok)"
        by (cases "Flush ?w1 nt") auto
      have "wr ?w1 < length (snd nt)" using "1.prems"(2) by simp
      from Flush_shape[OF fl this]
      obtain y where y: "snd nt1 = wire_upd ?i y (snd nt)"
        "y @ buf w2 = wire (snd nt ! ?i) @ buf w @ take ?k p" "wr w2 = ?i"
        by auto
      have rec: "Write_loop w2 (drop ?k p) nt1 = (w', p', nt')"
        using "1.prems"(1) go False fl by (subst (asm) Write_loop.simps) simp
      have len: "wr w2 < length (snd nt1)"
        using y "1.prems"(2) by simp
      from "1.IH"(2)[OF go False fl[symmetric] refl rec len]
      obtain x where x: "snd nt' = wire_upd (wr w2) x (snd nt1)"
        "x @ buf w' @ p' = wire (snd nt1 ! wr w2) @ buf w2 @ drop ?k p" "wr w' = wr w2"
        by auto
      have "x @ buf w' @ p' = (y @ buf w2) @ drop ?k p"
        unfolding x(2) using y(1,3) "1.prems"(2) by simp
      also have "\<dots> = wire (snd nt ! ?i) @ buf w @ p"
        unfolding y(2) by simp
      finally have "x @ buf w' @ p' = wire (snd nt ! ?i) @ buf w @ p" .
      moreover have "snd nt' = wire_upd ?i x (snd nt)"
        using x(1) y(1,3) by simp
      ultimately show ?thesis
        using x(3) y(3) by auto
    qed
  qed
qed

lemma Write_shape:
  assumes "Write w p nt = (w', nt', ok)" and "wr w < length (snd nt)"
  shows "\<exists>x. snd nt' = wire_upd (wr w) x (snd nt)
           \<and> prefix (x @ buf w') (wire (snd nt ! wr w) @ buf w @ p)
           \<and> (ok \<longrightarrow> x @ buf w' = wire (snd nt ! wr w) @ buf w @ p)
           \<and> wr w' = wr w \<and> (ok \<longleftrightarrow> \<not> werr w')"
proof -
  obtain w1 p1 nt1 where wl: "Write_loop w p nt = (w1, p1, nt1)"
    by (cases "Write_loop w p nt") auto
  from Write_loop_shape[OF wl assms(2)]
  obtain x where x: "snd nt1 = wire_upd (wr w) x (snd nt)"
    "x @ buf w1 @ p1 = wire (snd nt ! wr w) @ buf w @ p" "wr w1 = wr w"
    by auto
  have res: "nt' = nt1" "ok = (\<not> werr w1)" "w' = (if werr w1 then w1 else w1\<lparr>buf := buf w1 @ p1\<rparr>)"
    using assms(1) wl by (auto simp: Write_def split: if_splits)
  have pre: "prefix (x @ buf w1) (wire (snd nt ! wr w) @ buf w @ p)"
    unfolding x(2)[symmetric] by simp
  show ?thesis
  proof (cases "werr w1")
    case True
    then show ?thesis using x(1,3) res pre by auto
  next
    case False
    then have "x @ buf w' = wire (snd nt ! wr w) @ buf w @ p"
      using res x(2) by simp
    then show ?thesis using x(1,3) res False by auto
  qed
qed

subsection \<open>The steps of the worker, one by one\<close>

lemma run_append:
  "run (as @ bs) s = (case run as s of Next s' \<Rightarrow> run bs s' | Crash p \<Rightarrow> Crash p | Blocked \<Rightarrow> Blocked)"
  by (induction as arbitrary: s) (simp_all split: outcome.splits)

lemma run_invariant:
  assumes "run acts s = Next s'" and "P s"
    and step: "\<And>a s s'. sys_step a s = Next s' \<Longrightarrow> P s \<Longrightarrow> P s'"
  shows "P s'"
  using assms(1,2)
proof (induction acts arbitrary: s)
  case Nil
  then show ?case by simp
next
  case (Cons a acts)
  then obtain s1 where s1: "sys_step a s = Next s1" "run acts s1 = Next s'"
    by (auto split: outcome.splits)
  from step[OF s1(1) Cons.prems(2)] have "P s1" .
  from Cons.IH[OF s1(2) this] show ?case .
qed

lemma flushMetrics_Dial:
  "pc (wk s) = CONNECT \<Longrightarrow> flushMetrics (Dial ok) s =
     (if \<not> ok then
        Next (s\<lparr>wk := (wk s)\<lparr>sock := None, pc := WAIT\<rparr>, logs := logs s @ [ErrConnecting]\<rparr>)
      else
        Next (s\<lparr>conns := conns s @ [\<lparr>wire = [], lines_in = [], is_open = True\<rparr>],
                wk := (wk s)\<lparr>sock := Some (length (conns s)),
                              deferred := length (conns s) # deferred (wk s),
                              buffered := Some \<lparr>wr = length (conns s), buf = [], werr = False\<rparr>,
                              pc := STREAM\<rparr>\<rparr>))"
  by (simp add: flushMetrics_def)

lemma flushMetrics_Recv_closed:
  "pc (wk s) = STREAM \<or> pc (wk s) = WAIT \<Longrightarrow> metricQueue (sink s) = Some c \<Longrightarrow>
   items c = [] \<Longrightarrow> closed c \<Longrightarrow> flushMetrics (Recv rs) s = Next (quit s)"
  by (auto simp: flushMetrics_def chan_recv_def)

lemma flushMetrics_Recv_empty:
  "metricQueue (sink s) = Some c \<Longrightarrow> items c = [] \<Longrightarrow> \<not> closed c \<Longrightarrow>
   flushMetrics (Recv rs) s = Blocked"
  by (auto simp: flushMetrics_def chan_recv_def split: label.splits)

lemma flushMetrics_Recv_STREAM:
  "pc (wk s) = STREAM \<Longrightarrow> metricQueue (sink s) = Some c \<Longrightarrow> items c = m # ms \<Longrightarrow>
   buffered (wk s) = Some w \<Longrightarrow> Write w m (rs, conns s) = (w', (rs', cs'), wok) \<Longrightarrow>
   flushMetrics (Recv rs) s =
     Next (s\<lparr>sink := (sink s)\<lparr>metricQueue := Some (c\<lparr>items := ms\<rparr>)\<rparr>,
             deq := deq s @ [m],
             conns := note_line (wr w) m cs',
             wk := (wk s)\<lparr>buffered := Some w', pc := (if wok then STREAM else WAIT)\<rparr>,
             logs := logs s @ (if wok then [] else [ErrWriting])\<rparr>)"
  by (simp add: flushMetrics_def chan_recv_def)

lemma flushMetrics_Tick:
  "pc (wk s) = STREAM \<Longrightarrow> buffered (wk s) = Some w \<Longrightarrow>
   Flush w (rs, conns s) = (w', (rs', cs'), fok) \<Longrightarrow>
   flushMetrics (Tick rs) s =
     Next (s\<lparr>conns := cs',
             wk := (wk s)\<lparr>buffered := Some w', pc := (if fok then STREAM else WAIT)\<rparr>,
             logs := logs s @ (if fok then [] else [ErrFlushing])\<rparr>)"
  by (simp add: flushMetrics_def)

lemma flushMetrics_Recv_WAIT:
  "pc (wk s) = WAIT \<Longrightarrow> metricQueue (sink s) = Some c \<Longrightarrow> items c = m # ms \<Longrightarrow>
   flushMetrics (Recv rs) s =
     Next (s\<lparr>sink := (sink s)\<lparr>metricQueue := Some (c\<lparr>items := ms\<rparr>)\<rparr>, deq := deq s @ [m]\<rparr>)"
  by (simp add: flushMetrics_def chan_recv_def)

lemma flushMetrics_Elapsed:
  "pc (wk s) = WAIT \<Longrightarrow> flushMetrics Elapsed s = Next (s\<lparr>wk := (wk s)\<lparr>pc := CONNECT\<rparr>\<rparr>)"
  by (simp add: flushMetrics_def)

lemma flushMetrics_QUIT: "pc (wk s) = QUIT \<Longrightarrow> flushMetrics ev s = Blocked"
  by (simp add: flushMetrics_def)

text \<open>Every step of the worker is one of the above.\<close>

lemma flushMetrics_cases:
  assumes "flushMetrics ev s = Next s'"
  obtains
    (dial) ok where "pc (wk s) = CONNECT" "ev = Dial ok"
  | (quit) rs c where "pc (wk s) = STREAM \<or> pc (wk s) = WAIT" "ev = Recv rs"
      "metricQueue (sink s) = Some c" "items c = []" "closed c" "s' = quit s"
  | (wline) rs c m ms w w' rs' cs' wok where "pc (wk s) = STREAM" "ev = Recv rs"
      "metricQueue (sink s) = Some c" "items c = m # ms" "buffered (wk s) = Some w"
      "Write w m (rs, conns s) = (w', (rs', cs'), wok)"
  | (tick) rs w w' rs' cs' fok where "pc (wk s) = STREAM" "ev = Tick rs"
      "buffered (wk s) = Some w" "Flush w (rs, conns s) = (w', (rs', cs'), fok)"
  | (drain) rs c m ms where "pc (wk s) = WAIT" "ev = Recv rs"
      "metricQueue (sink s) = Some c" "items c = m # ms"
  | (elapsed) "pc (wk s) = WAIT" "ev = Elapsed"
proof (cases "pc (wk s)")
  case CONNECT
  with assms show ?thesis
    by (cases ev) (auto simp: flushMetrics_def intro: dial)
next
  case STREAM
  show ?thesis
  proof (cases ev)
    case (Recv rs)
    with assms STREAM obtain c where c: "metricQueue (sink s) = Some c"
      by (cases "metricQueue (sink s)") (auto simp: flushMetrics_def chan_recv_def)
    show ?thesis
    proof (cases "items c")
      case Nil
      with assms STREAM Recv c have "closed c" "s' = quit s"
        by (auto simp: flushMetrics_def chan_recv_def split: if_splits)
      with STREAM Recv c Nil show ?thesis by (intro quit) auto
    next
      case (Cons m ms)
      with assms STREAM Recv c obtain w where w: "buffered (wk s) = Some w"
        by (cases "buffered (wk s)") (auto simp: flushMetrics_def chan_recv_def)
      obtain w' rs' cs' wok where "Write w m (rs, conns s) = (w', (rs', cs'), wok)"
        by (cases "Write w m (rs, conns s)") auto
      with STREAM Recv c Cons w show ?thesis by (intro wline) auto
    qed
  next
    case (Tick rs)
    with assms STREAM obtain w where w: "buffered (wk s) = Some w"
      by (cases "buffered (wk s)") (auto simp: flushMetrics_def)
    obtain w' rs' cs' fok where "Flush w (rs, conns s) = (w', (rs', cs'), fok)"
      by (cases "Flush w (rs, conns s)") auto
    with STREAM Tick w show ?thesis by (intro tick) auto
  qed (use assms STREAM in \<open>auto simp: flushMetrics_def\<close>)
next
  case WAIT
  show ?thesis
  proof (cases ev)
    case (Recv rs)
    with assms WAIT obtain c where c: "metricQueue (sink s) = Some c"
      by (cases "metricQueue (sink s)") (auto simp: flushMetrics_def chan_recv_def)
    show ?thesis
    proof (cases "items c")
      case Nil
      with assms WAIT Recv c have "closed c" "s' = quit s"
        by (auto simp: flushMetrics_def chan_recv_def split: if_splits)
      with WAIT Recv c Nil show ?thesis by (intro quit) auto
    next
      case (Cons m ms)
      with WAIT Recv c show ?thesis by (intro drain) auto
    qed
  qed (use assms WAIT in \<open>auto simp: flushMetrics_def intro: elapsed\<close>)
next
  case QUIT
  with assms show ?thesis by (simp add: flushMetrics_def)
qed

subsection \<open>The invariant of the reachable states\<close>

lemma update_last: "Suc i = length cs \<Longrightarrow> cs[i := c] = butlast cs @ [c]"
proof -
  assume a: "Suc i = length cs"
  then have ne: "cs \<noteq> []" by auto
  have "(butlast cs @ [last cs])[length (butlast cs) := c] = butlast cs @ [c]"
    by (rule list_update_length)
  moreover have "length (butlast cs) = i" using a by simp
  ultimately show ?thesis using ne by simp
qed

lemma nth_last: "Suc i = length cs \<Longrightarrow> cs ! i = last cs"
  by (cases cs rule: rev_cases) auto

lemma wire_upd_last:
  "Suc i = length cs \<Longrightarrow> wire_upd i x cs = butlast cs @ [(last cs)\<lparr>wire := x\<rparr>]"
  by (simp add: wire_upd_def update_last nth_last)

lemma note_line_last:
  "Suc i = length cs \<Longrightarrow>
   note_line i m cs = butlast cs @ [(last cs)\<lparr>lines_in := lines_in (last cs) @ [m]\<rparr>]"
  by (simp add: note_line_def update_last nth_last)

lemma close_conn_all:
  assumes "\<And>c. Q (c\<lparr>is_open := False\<rparr>) = Q c"
  shows "list_all Q (close_conn cs i) = list_all Q cs"
  by (auto simp: close_conn_def list_all_length nth_list_update assms)

lemma close_conn_map:
  assumes "\<And>c. f (c\<lparr>is_open := False\<rparr>) = f c"
  shows "map f (close_conn cs i) = map f cs"
  by (auto simp: close_conn_def map_update assms list_update_same_conv)

lemma closing_all:
  assumes "\<And>c. Q (c\<lparr>is_open := False\<rparr>) = Q c"
  shows "list_all Q (foldl close_conn cs ds) = list_all Q cs"
  by (induction ds arbitrary: cs) (simp_all add: close_conn_all assms)

lemma closing_map:
  assumes "\<And>c. f (c\<lparr>is_open := False\<rparr>) = f c"
  shows "map f (foldl close_conn cs ds) = map f cs"
  by (induction ds arbitrary: cs) (simp_all add: close_conn_map assms)

lemma quit_wires:
  "map wire (conns (quit s)) = map wire (conns s)"
  "map lines_in (conns (quit s)) = map lines_in (conns s)"
  by (simp_all add: quit_def closing_map)

lemma inv_quit:
  assumes "sys_inv s" and "qitems (sink s) = []"
  shows "sys_inv (quit s)"
proof -
  have "written (quit s) = written s"
    by (simp add: written_def quit_wires)
  moreover have "list_all (\<lambda>c. prefix (wire c) (concat (lines_in c))) (conns (quit s))
      = list_all (\<lambda>c. prefix (wire c) (concat (lines_in c))) (conns s)"
    by (simp add: quit_def closing_all)
  moreover have "enq (quit s) = enq s" "deq (quit s) = deq s" "qitems (sink (quit s)) = []"
    "pc (wk (quit s)) = QUIT"
    by (simp_all add: quit_def qitems_def)
  ultimately show ?thesis
    using assms by (simp add: sys_inv_def)
qed

lemma streaming_ok_cong:
  "wk s' = wk s \<Longrightarrow> conns s' = conns s \<Longrightarrow> streaming_ok s' = streaming_ok s"
  by (simp add: streaming_ok_def split: option.splits)

lemma inv_Emit:
  assumes "sys_inv s" and "sys_step (Emit m) s = Next s'"
  shows "sys_inv s'"
proof -
  from assms(2) obtain k where k: "pushMetric m (sink s) = Inr k"
    and s': "s' = s\<lparr>sink := k, enq := enq s @ (case chan_send m (metricQueue (sink s)) of
                                         Proceed c \<Rightarrow> [m] | _ \<Rightarrow> [])\<rparr>"
    by (auto simp: sys_step_def split: sum.splits)
  have q: "qitems k = qitems (sink s) @ (case chan_send m (metricQueue (sink s)) of
                                         Proceed c \<Rightarrow> [m] | _ \<Rightarrow> [])"
    using k by (auto simp: pushMetric_def chan_send_def qitems_def split: option.splits if_splits)
  have "streaming_ok s' = streaming_ok s"
    by (rule streaming_ok_cong) (simp_all add: s')
  then show ?thesis
    using assms(1) q by (simp add: sys_inv_def written_def) (simp add: s')
qed

lemma inv_Close:
  assumes "sys_inv s" and "sys_step Close s = Next s'"
  shows "sys_inv s'"
proof -
  from assms(2) obtain k where k: "Shutdown (sink s) = Inr k" and s': "s' = s\<lparr>sink := k\<rparr>"
    by (auto simp: sys_step_def split: sum.splits)
  have "qitems k = qitems (sink s)"
    using k by (auto simp: Shutdown_def chan_close_def qitems_def split: option.splits if_splits)
  moreover have "streaming_ok s' = streaming_ok s"
    by (rule streaming_ok_cong) (simp_all add: s')
  ultimately show ?thesis
    using assms(1) by (simp add: sys_inv_def written_def) (simp add: s')
qed

lemma inv_Dial:
  assumes "sys_inv s" and "pc (wk s) = CONNECT" and "flushMetrics (Dial ok) s = Next s'"
  shows "sys_inv s'"
proof (cases ok)
  case False
  with assms(2,3) have "s' = s\<lparr>wk := (wk s)\<lparr>sock := None, pc := WAIT\<rparr>,
       logs := logs s @ [ErrConnecting]\<rparr>"
    by (simp add: flushMetrics_Dial)
  with assms(1) show ?thesis
    by (simp add: sys_inv_def written_def)
next
  case True
  with assms(2,3) have s': "s' = s\<lparr>conns := conns s @ [\<lparr>wire = [], lines_in = [], is_open = True\<rparr>],
                wk := (wk s)\<lparr>sock := Some (length (conns s)),
                              deferred := length (conns s) # deferred (wk s),
                              buffered := Some \<lparr>wr = length (conns s), buf = [], werr = False\<rparr>,
                              pc := STREAM\<rparr>\<rparr>"
    by (simp add: flushMetrics_Dial)
  have "streaming_ok s'"
    by (simp add: s' streaming_ok_def)
  moreover have "written s' = written s"
    by (simp add: s' written_def)
  moreover have "enq s' = enq s" "deq s' = deq s" "sink s' = sink s"
    by (simp_all add: s')
  moreover have "list_all (\<lambda>c. prefix (wire c) (concat (lines_in c))) (conns s')"
    using assms(1) by (simp add: s' sys_inv_def)
  ultimately show ?thesis
    using assms(1) by (simp add: sys_inv_def)
qed

lemma inv_drain:
  assumes "sys_inv s" and "pc (wk s) = WAIT" and "metricQueue (sink s) = Some c" and "items c = m # ms"
    and "flushMetrics (Recv rs) s = Next s'"
  shows "sys_inv s'"
proof -
  have s': "s' = s\<lparr>sink := (sink s)\<lparr>metricQueue := Some (c\<lparr>items := ms\<rparr>)\<rparr>, deq := deq s @ [m]\<rparr>"
    using assms(5) flushMetrics_Recv_WAIT[OF assms(2,3,4)] by simp
  have "subseq (written s) (deq s @ [m])"
    using assms(1) by (simp add: sys_inv_def subseq_rev_drop_many)
  then show ?thesis
    using assms(1-4) by (simp add: sys_inv_def s' written_def qitems_def)
qed

lemma inv_Elapsed:
  assumes "sys_inv s" and "pc (wk s) = WAIT" and "flushMetrics Elapsed s = Next s'"
  shows "sys_inv s'"
proof -
  have "s' = s\<lparr>wk := (wk s)\<lparr>pc := CONNECT\<rparr>\<rparr>"
    using assms(2,3) by (simp add: flushMetrics_Elapsed)
  with assms(1) show ?thesis
    by (simp add: sys_inv_def written_def)
qed

lemma written_last:
  "cs \<noteq> [] \<Longrightarrow>
   concat (map lines_in (butlast cs @ [c])) =
     concat (map lines_in (butlast cs)) @ lines_in c"
  by simp

lemma written_split:
  "cs \<noteq> [] \<Longrightarrow> concat (map lines_in cs) = concat (map lines_in (butlast cs)) @ lines_in (last cs)"
proof -
  assume "cs \<noteq> []"
  then have "cs = butlast cs @ [last cs]" by simp
  then have "concat (map lines_in cs) = concat (map lines_in (butlast cs @ [last cs]))" by simp
  then show ?thesis by simp
qed

lemma all_split:
  "cs \<noteq> [] \<Longrightarrow> list_all Q cs = (list_all Q (butlast cs) \<and> Q (last cs))"
proof -
  assume "cs \<noteq> []"
  then have "cs = butlast cs @ [last cs]" by simp
  then have "list_all Q cs = list_all Q (butlast cs @ [last cs])" by simp
  then show ?thesis by simp
qed

lemma inv_Tick:
  assumes "sys_inv s" and "pc (wk s) = STREAM" and "buffered (wk s) = Some w"
    and fl: "Flush w (rs, conns s) = (w', (rs', cs'), fok)"
    and step: "flushMetrics (Tick rs) s = Next s'"
  shows "sys_inv s'"
proof -
  from assms(1,2,3) have ok: "conns s \<noteq> []" "Suc (wr w) = length (conns s)" "\<not> werr w"
    "wire (last (conns s)) @ buf w = concat (lines_in (last (conns s)))"
    by (simp_all add: sys_inv_def streaming_ok_def)
  have lt: "wr w < length (snd (rs, conns s))" using ok(2) by simp
  from Flush_shape[OF fl lt] obtain x where
    x: "cs' = wire_upd (wr w) x (conns s)" "x @ buf w' = wire (conns s ! wr w) @ buf w"
      "wr w' = wr w" "fok \<longleftrightarrow> \<not> werr w'"
    by auto
  have cs': "cs' = butlast (conns s) @ [(last (conns s))\<lparr>wire := x\<rparr>]"
    using x(1) ok(2) by (simp add: wire_upd_last)
  have xb: "x @ buf w' = concat (lines_in (last (conns s)))"
    using x(2) ok(2,4) by (simp add: nth_last)
  have s': "s' = s\<lparr>conns := cs',
             wk := (wk s)\<lparr>buffered := Some w', pc := (if fok then STREAM else WAIT)\<rparr>,
             logs := logs s @ (if fok then [] else [ErrFlushing])\<rparr>"
    using step flushMetrics_Tick[OF assms(2,3) fl] by simp
  have w: "written s' = written s"
    using ok(1) by (simp add: s' cs' written_def written_split)
  have pre: "prefix x (concat (lines_in (last (conns s))))"
    unfolding xb[symmetric] by simp
  have al: "list_all (\<lambda>c. prefix (wire c) (concat (lines_in c))) (conns s')"
    using assms(1) ok(1) pre by (simp add: s' cs' sys_inv_def all_split)
  have st: "pc (wk s') = STREAM \<longrightarrow> streaming_ok s'"
    using x(3,4) xb ok(1,2) by (auto simp: s' cs' streaming_ok_def)
  have "enq s' = enq s" "deq s' = deq s" "sink s' = sink s"
    by (simp_all add: s')
  with w al st assms(1) show ?thesis
    by (simp add: sys_inv_def)
qed

lemma inv_write:
  assumes "sys_inv s" and "pc (wk s) = STREAM" and q: "metricQueue (sink s) = Some c"
    "items c = m # ms" and "buffered (wk s) = Some w"
    and wr: "Write w m (rs, conns s) = (w', (rs', cs'), wok)"
    and step: "flushMetrics (Recv rs) s = Next s'"
  shows "sys_inv s'"
proof -
  from assms(1,2,5) have ok: "conns s \<noteq> []" "Suc (wr w) = length (conns s)" "\<not> werr w"
    "wire (last (conns s)) @ buf w = concat (lines_in (last (conns s)))"
    by (simp_all add: sys_inv_def streaming_ok_def)
  let ?l = "last (conns s)"
  have lt: "wr w < length (snd (rs, conns s))" using ok(2) by simp
  from Write_shape[OF wr lt] obtain x where
    x: "cs' = wire_upd (wr w) x (conns s)"
      "prefix (x @ buf w') (wire (conns s ! wr w) @ buf w @ m)"
      "wok \<longrightarrow> x @ buf w' = wire (conns s ! wr w) @ buf w @ m"
      "wr w' = wr w" "wok \<longleftrightarrow> \<not> werr w'"
    by auto
  have cs': "cs' = butlast (conns s) @ [?l\<lparr>wire := x\<rparr>]"
    using x(1) ok(2) by (simp add: wire_upd_last)
  have len': "Suc (wr w) = length cs'"
    using ok(2) by (simp add: x(1))
  have nl: "note_line (wr w) m cs' =
      butlast (conns s) @ [?l\<lparr>wire := x, lines_in := lines_in ?l @ [m]\<rparr>]"
    unfolding note_line_last[OF len'] by (simp add: cs')
  have all: "wire (conns s ! wr w) @ buf w @ m = concat (lines_in ?l @ [m])"
    using ok(2,4) by (simp add: nth_last)
  have pre: "prefix x (concat (lines_in ?l @ [m]))"
    using x(2) unfolding all by (rule append_prefixD)
  have s': "s' = s\<lparr>sink := (sink s)\<lparr>metricQueue := Some (c\<lparr>items := ms\<rparr>)\<rparr>,
             deq := deq s @ [m],
             conns := note_line (wr w) m cs',
             wk := (wk s)\<lparr>buffered := Some w', pc := (if wok then STREAM else WAIT)\<rparr>,
             logs := logs s @ (if wok then [] else [ErrWriting])\<rparr>"
    using step flushMetrics_Recv_STREAM[OF assms(2) q assms(5) wr] by simp
  have w: "written s' = written s @ [m]"
    using ok(1) by (simp add: s' nl written_def written_split)
  have d: "deq s' = deq s @ [m]"
    by (simp add: s')
  have sub: "subseq (written s') (deq s')"
    unfolding w d using assms(1) by (simp add: sys_inv_def)
  have al: "list_all (\<lambda>c. prefix (wire c) (concat (lines_in c))) (conns s')"
    using assms(1) ok(1) pre by (simp add: s' nl sys_inv_def all_split)
  have st: "pc (wk s') = STREAM \<longrightarrow> streaming_ok s'"
    using x(3,4,5) all ok(1,2) by (auto simp: s' nl streaming_ok_def)
  have e: "enq s' = deq s' @ qitems (sink s')"
    using assms(1) q by (simp add: s' sys_inv_def qitems_def)
  from e sub al st show ?thesis
    by (simp add: sys_inv_def)
qed

lemma inv_step:
  assumes "sys_step a s = Next s'" and "sys_inv s"
  shows "sys_inv s'"
proof (cases a)
  case (Emit m)
  with assms show ?thesis by (simp add: inv_Emit)
next
  case Close
  with assms show ?thesis by (simp add: inv_Close)
next
  case (Work ev)
  with assms(1) have fm: "flushMetrics ev s = Next s'"
    by (simp add: sys_step_def)
  then show ?thesis
  proof (cases rule: flushMetrics_cases)
    case (dial ok)
    with fm assms(2) show ?thesis by (simp add: inv_Dial)
  next
    case (quit rs c)
    then have "qitems (sink s) = []" by (simp add: qitems_def)
    with assms(2) quit show ?thesis by (simp add: inv_quit)
  next
    case (wline rs c m ms w w' rs' cs' wok)
    with fm assms(2) show ?thesis by (simp add: inv_write)
  next
    case (tick rs w w' rs' cs' fok)
    with fm assms(2) show ?thesis by (simp add: inv_Tick)
  next
    case (drain rs c m ms)
    with fm assms(2) show ?thesis by (simp add: inv_drain)
  next
    case elapsed
    with fm assms(2) show ?thesis by (simp add: inv_Elapsed)
  qed
qed

lemma inv_start: "sys_inv (start a)"
  by (simp add: sys_inv_def start_def NewStatsiteSink_def qitems_def written_def)

lemma reachable_inv: "run acts (start a) = Next s \<Longrightarrow> sys_inv s"
  by (rule run_invariant[where P = sys_inv, OF _ inv_start inv_step])

lemma length_closing [simp]: "length (foldl close_conn cs ds) = length cs"
  by (induction ds arbitrary: cs) (simp_all add: close_conn_def)

lemma length_note_line [simp]: "length (note_line i m cs) = length cs"
  by (simp add: note_line_def)

lemma ctl_step:
  assumes "sys_step a s = Next s'" and "ctl_inv s" and "sys_inv s"
  shows "ctl_inv s'"
proof (cases a)
  case (Emit m)
  with assms show ?thesis
    by (auto simp: sys_step_def ctl_inv_def pushMetric_def chan_send_def
        split: sum.splits option.splits if_splits)
next
  case Close
  with assms show ?thesis
    by (auto simp: sys_step_def ctl_inv_def Shutdown_def chan_close_def
        split: sum.splits option.splits if_splits)
next
  case (Work ev)
  with assms(1) have fm: "flushMetrics ev s = Next s'"
    by (simp add: sys_step_def)
  then show ?thesis
  proof (cases rule: flushMetrics_cases)
    case (dial ok)
    with fm assms(2) show ?thesis
      by (auto simp: flushMetrics_Dial ctl_inv_def split: if_splits)
  next
    case (quit rs c)
    with assms(2) show ?thesis
      by (auto simp: ctl_inv_def quit_def)
  next
    case (wline rs c m ms w w' rs' cs' wok)
    from assms(3) wline(1,5) have "wr w < length (snd (rs, conns s))"
      by (simp add: sys_inv_def streaming_ok_def)
    from Write_shape[OF wline(6) this] have "length cs' = length (conns s)"
      by auto
    moreover have "s' = s\<lparr>sink := (sink s)\<lparr>metricQueue := Some (c\<lparr>items := ms\<rparr>)\<rparr>,
             deq := deq s @ [m],
             conns := note_line (wr w) m cs',
             wk := (wk s)\<lparr>buffered := Some w', pc := (if wok then STREAM else WAIT)\<rparr>,
             logs := logs s @ (if wok then [] else [ErrWriting])\<rparr>"
      using fm flushMetrics_Recv_STREAM[OF wline(1,3,4,5,6)] wline(2) by simp
    ultimately show ?thesis
      using assms(2) wline(1) by (simp add: ctl_inv_def)
  next
    case (tick rs w w' rs' cs' fok)
    from assms(3) tick(1,3) have "wr w < length (snd (rs, conns s))"
      by (simp add: sys_inv_def streaming_ok_def)
    from Flush_shape[OF tick(4) this] have "length cs' = length (conns s)"
      by auto
    moreover have "s' = s\<lparr>conns := cs',
             wk := (wk s)\<lparr>buffered := Some w', pc := (if fok then STREAM else WAIT)\<rparr>,
             logs := logs s @ (if fok then [] else [ErrFlushing])\<rparr>"
      using fm flushMetrics_Tick[OF tick(1,3,4)] tick(2) by simp
    ultimately show ?thesis
      using assms(2) tick(1) by (simp add: ctl_inv_def)
  next
    case (drain rs c m ms)
    with fm assms(2) show ?thesis
      by (auto simp: flushMetrics_Recv_WAIT ctl_inv_def)
  next
    case elapsed
    with fm assms(2) show ?thesis
      by (auto simp: flushMetrics_Elapsed ctl_inv_def)
  qed
qed


lemma ctl_start: "ctl_inv (start a)"
  by (simp add: ctl_inv_def start_def NewStatsiteSink_def)

lemma reachable_both: "run acts (start a) = Next s \<Longrightarrow> sys_inv s \<and> ctl_inv s"
  by (rule run_invariant[where P = "\<lambda>s. sys_inv s \<and> ctl_inv s"])
     (auto simp: inv_start ctl_start intro: inv_step ctl_step)

subsection \<open>The operations of the sink\<close>

lemma pushMetric_open: "\<not> queue_closed s \<Longrightarrow> pushMetric m s = Inr (try_push m s)"
  by (auto simp: queue_closed_def pushMetric_def chan_send_def try_push_def split: option.splits)

text \<open>The digits that \<open>%f\<close> prints, and the number they denote.\<close>

lemma digit_code: "d < 10 \<Longrightarrow> (of_char (digit d) :: nat) = 48 + d"
proof -
  assume "d < 10"
  then have "d = 0 \<or> d = 1 \<or> d = 2 \<or> d = 3 \<or> d = 4 \<or> d = 5 \<or> d = 6 \<or> d = 7 \<or> d = 8 \<or> d = 9"
    by arith
  then show ?thesis
    by (elim disjE) (simp_all add: digit_def)
qed

lemma digit_is_digit: "d < 10 \<Longrightarrow> is_digit (digit d)"
  by (simp add: is_digit_def digit_code)

lemma digits_val_snoc: "digits_val (xs @ [c]) = 10 * digits_val xs + (of_char c - 48)"
  by (simp add: digits_val_def)

lemma decimal_val: "digits_val (decimal n) = n"
proof (induction n rule: decimal.induct)
  case (1 n)
  show ?case
  proof (cases "n < 10")
    case True
    then show ?thesis
      by (subst decimal.simps) (simp add: digits_val_def digit_code)
  next
    case False
    then have "digits_val (decimal (n div 10)) = n div 10"
      using 1 by simp
    with False show ?thesis
      by (subst decimal.simps) (simp add: digits_val_snoc digit_code)
  qed
qed

lemma decimal_digits: "list_all is_digit (decimal n) \<and> decimal n \<noteq> []"
proof (induction n rule: decimal.induct)
  case (1 n)
  show ?case
  proof (cases "n < 10")
    case True
    then show ?thesis
      by (subst (1 2) decimal.simps) (simp add: digit_is_digit)
  next
    case False
    with 1 show ?thesis
      by (subst (1 2) decimal.simps) (simp add: digit_is_digit)
  qed
qed

lemma decimal_leading: "decimal n = ''0'' \<or> hd (decimal n) \<noteq> CHR ''0''"
proof (induction n rule: decimal.induct)
  case (1 n)
  show ?case
  proof (cases "n < 10")
    case True
    then have "(of_char (digit n) :: nat) = 48 + n"
      by (rule digit_code)
    then have "n \<noteq> 0 \<Longrightarrow> digit n \<noteq> CHR ''0''"
      by auto
    moreover have "digit 0 = CHR ''0''"
      by (simp add: digit_def)
    ultimately show ?thesis
      using True by (subst (1 2) decimal.simps) (cases "n = 0"; simp)
  next
    case False
    then have ih: "decimal (n div 10) = ''0'' \<or> hd (decimal (n div 10)) \<noteq> CHR ''0''"
      using 1 by simp
    have "decimal (n div 10) \<noteq> ''0''"
    proof
      assume "decimal (n div 10) = ''0''"
      then have "digits_val (decimal (n div 10)) = 0"
        by (simp add: digits_val_def)
      then show False
        using False by (simp add: decimal_val)
    qed
    with ih have "hd (decimal (n div 10)) \<noteq> CHR ''0''"
      by simp
    moreover have "decimal (n div 10) \<noteq> []"
      by (simp add: decimal_digits)
    ultimately show ?thesis
      using False by (subst (1 2) decimal.simps) simp
  qed
qed

lemma fraction_digits: "length (fraction n) = 6 \<and> list_all is_digit (fraction n)"
  by (simp add: fraction_def digit_is_digit)

lemma fraction_val: "n < 10 ^ 6 \<Longrightarrow> digits_val (fraction n) = n"
proof -
  assume n: "n < 10 ^ 6"
  define n1 where "n1 = n div 10"
  define n2 where "n2 = n1 div 10"
  define n3 where "n3 = n2 div 10"
  define n4 where "n4 = n3 div 10"
  define n5 where "n5 = n4 div 10"
  have d: "n div 10 = n1" "n div 100 = n2" "n div 1000 = n3" "n div 10000 = n4"
    "n div 100000 = n5"
    unfolding n1_def n2_def n3_def n4_def n5_def by (simp_all add: div_mult2_eq)
  have "n5 < 10"
    using n d(5) by simp
  then have e5: "n5 mod 10 = n5"
    by simp
  have e4: "10 * n5 + n4 mod 10 = n4"
    unfolding n5_def by simp
  have e3: "10 * n4 + n3 mod 10 = n3"
    unfolding n4_def by simp
  have e2: "10 * n3 + n2 mod 10 = n2"
    unfolding n3_def by simp
  have e1: "10 * n2 + n1 mod 10 = n1"
    unfolding n2_def by simp
  have e0: "10 * n1 + n mod 10 = n"
    unfolding n1_def by simp
  have "digits_val (fraction n) =
          10 * (10 * (10 * (10 * (10 * (n5 mod 10) + n4 mod 10)
            + n3 mod 10) + n2 mod 10) + n1 mod 10) + n mod 10"
    by (simp add: fraction_def digits_val_def digit_code d)
  also have "\<dots> = n"
    by (simp only: e5 e4 e3 e2 e1 e0)
  finally show ?thesis .
qed

lemma Round_nearest:
  assumes "0 < den"
  shows "2 * \<bar>int (Round num den) * int den - int num\<bar> \<le> int den
         \<and> (2 * \<bar>int (Round num den) * int den - int num\<bar> = int den \<longrightarrow> even (Round num den))"
proof -
  define q where "q = num div den"
  define r where "r = num mod den"
  have num: "int num = int q * int den + int r"
    unfolding q_def r_def by (metis div_mult_mod_eq of_nat_add of_nat_mult)
  have r: "r < den"
    unfolding r_def using assms by simp
  show ?thesis
  proof (cases "den < 2 * r \<or> (2 * r = den \<and> odd q)")
    case True
    then have R: "Round num den = q + 1"
      by (simp add: Round_def q_def r_def Let_def)
    have "int (q + 1) * int den - int num = int den - int r"
      using num by (simp add: algebra_simps)
    with True r show ?thesis
      unfolding R by auto
  next
    case False
    then have R: "Round num den = q"
      by (simp add: Round_def q_def r_def Let_def)
    have "int q * int den - int num = - int r"
      using num by simp
    with False r show ?thesis
      unfolding R by auto
  qed
qed


lemma digit_not_sign:
  "is_digit c \<Longrightarrow> c \<noteq> CHR ''-'' \<and> c \<noteq> CHR ''+'' \<and> c \<noteq> CHR ''I'' \<and> c \<noteq> CHR ''N''"
  by (auto simp: is_digit_def)

lemma fmtFloat_digits:
  assumes "AppendFloat v = fmtF neg n"
  shows "fmtFloat v = fmtF neg n"
proof -
  obtain c cs where ds: "decimal (n div 10 ^ 6) = c # cs"
    using decimal_digits[of "n div 10 ^ 6"] by (cases "decimal (n div 10 ^ 6)") auto
  then have "is_digit c"
    using decimal_digits[of "n div 10 ^ 6"] by simp
  then have c: "c \<noteq> CHR ''-''" "c \<noteq> CHR ''+''" "c \<noteq> CHR ''I''" "c \<noteq> CHR ''N''"
    using digit_not_sign by blast+
  show ?thesis
  proof (cases neg)
    case True
    then have "AppendFloat v = CHR ''-'' # c # cs @ ''.'' @ fraction (n mod 10 ^ 6)"
      using assms ds by (simp add: fmtF_def)
    then show ?thesis
      using c True ds by (simp add: fmtFloat_def fmtF_def)
  next
    case False
    then have "AppendFloat v = c # cs @ ''.'' @ fraction (n mod 10 ^ 6)"
      using assms ds by (simp add: fmtF_def)
    then show ?thesis
      using c False ds by (simp add: fmtFloat_def fmtF_def)
  qed
qed

lemma AppendFloat_finite:
  "f32_finite v \<Longrightarrow> AppendFloat v = fmtF (f32_neg v) (f32_scaled v)"
  by (simp add: AppendFloat_def f32_finite_def bigFtoa_def f32_scaled_def f32_exp_def
      f32_mant_def Let_def f32_neg_def add.commute)

lemma fmtFloat_finite:
  "f32_finite v \<Longrightarrow> fmtFloat v = fmtF (f32_neg v) (f32_scaled v)"
  by (rule fmtFloat_digits) (rule AppendFloat_finite)

lemma fmtFloat_special:
  "\<not> f32_finite v \<Longrightarrow>
     fmtFloat v = (if unat v mod 2 ^ 23 \<noteq> 0 then ''NaN''
                   else if f32_neg v then ''-Inf'' else ''+Inf'')"
  by (simp add: fmtFloat_def AppendFloat_def f32_finite_def Let_def f32_neg_def)

lemma f32_scaled_nearest:
  "2 * \<bar>int (f32_scaled v) * int (f32_den v) - int (f32_num v) * 10 ^ 6\<bar> \<le> int (f32_den v)
   \<and> (2 * \<bar>int (f32_scaled v) * int (f32_den v) - int (f32_num v) * 10 ^ 6\<bar> = int (f32_den v)
        \<longrightarrow> even (f32_scaled v))"
proof (cases "150 \<le> f32_exp v")
  case True
  then show ?thesis
    by (simp add: f32_scaled_def f32_den_def f32_num_def)
next
  case False
  then have s: "f32_scaled v = Round (f32_mant v * 10 ^ 6) (f32_den v)"
    "f32_num v = f32_mant v"
    by (simp_all add: f32_scaled_def f32_den_def f32_num_def)
  have "0 < f32_den v"
    by (simp add: f32_den_def)
  from Round_nearest[OF this, of "f32_mant v * 10 ^ 6"] show ?thesis
    unfolding s by simp
qed

lemma fmtFloat_rendering:
  assumes "f32_finite v"
  shows "\<exists>ip fp. fmtFloat v = (if f32_neg v then ''-'' else []) @ ip @ ''.'' @ fp
           \<and> ip \<noteq> [] \<and> list_all is_digit ip \<and> (ip = ''0'' \<or> hd ip \<noteq> CHR ''0'')
           \<and> length fp = 6 \<and> list_all is_digit fp
           \<and> 2 * \<bar>int (digits_val ip * 10 ^ 6 + digits_val fp) * int (f32_den v)
                   - int (f32_num v) * 10 ^ 6\<bar> \<le> int (f32_den v)
           \<and> (2 * \<bar>int (digits_val ip * 10 ^ 6 + digits_val fp) * int (f32_den v)
                   - int (f32_num v) * 10 ^ 6\<bar> = int (f32_den v)
                \<longrightarrow> even (digits_val ip * 10 ^ 6 + digits_val fp))"
proof -
  define n where "n = f32_scaled v"
  have val: "digits_val (decimal (n div 10 ^ 6)) * 10 ^ 6 + digits_val (fraction (n mod 10 ^ 6)) = n"
    by (simp add: decimal_val fraction_val)
  show ?thesis
    apply (rule exI[of _ "decimal (n div 10 ^ 6)"])
    apply (rule exI[of _ "fraction (n mod 10 ^ 6)"])
    unfolding val
    using fmtFloat_finite[OF assms] decimal_digits[of "n div 10 ^ 6"]
      decimal_leading[of "n div 10 ^ 6"] fraction_digits[of "n mod 10 ^ 6"]
      f32_scaled_nearest[of v]
    unfolding n_def[symmetric]
    by (simp add: fmtF_def)
qed

lemma decimal_shape_intro:
  assumes "ip \<noteq> []" "list_all is_digit ip" "fp \<noteq> []" "list_all is_digit fp"
  shows "decimal_shape ((if neg then ''-'' else []) @ ip @ ''.'' @ fp)"
proof -
  have pt: "\<not> is_digit CHR ''.''"
    by (simp add: is_digit_def)
  have ip: "\<And>x. x \<in> set ip \<Longrightarrow> is_digit x"
    using assms(2) by (simp add: list_all_iff)
  have tw: "takeWhile is_digit (ip @ CHR ''.'' # fp) = ip"
    using ip pt by (simp add: takeWhile_append2)
  have dw: "dropWhile is_digit (ip @ CHR ''.'' # fp) = CHR ''.'' # fp"
    using ip pt by (simp add: dropWhile_append2)
  obtain c cs where c: "ip = c # cs"
    using assms(1) by (cases ip) auto
  then have "is_digit c"
    using assms(2) by simp
  then have nm: "c \<noteq> CHR ''-''"
    using digit_not_sign by blast
  show ?thesis
  proof (cases neg)
    case True
    then show ?thesis
      using tw dw assms by (simp add: decimal_shape_def)
  next
    case False
    have "(c # cs) @ ''.'' @ fp = c # (cs @ ''.'' @ fp)"
      by simp
    then show ?thesis
      using False tw dw assms nm unfolding c decimal_shape_def Let_def
      by (simp del: takeWhile.simps dropWhile.simps)
  qed
qed

lemma fmtFloat_shape: "f32_finite v \<Longrightarrow> decimal_shape (fmtFloat v)"
proof -
  assume "f32_finite v"
  then have "fmtFloat v = fmtF (f32_neg v) (f32_scaled v)"
    by (rule fmtFloat_finite)
  moreover have "fraction (f32_scaled v mod 10 ^ 6) \<noteq> []"
    by (simp add: fraction_def)
  ultimately show ?thesis
    unfolding fmtF_def
    using decimal_shape_intro[of "decimal (f32_scaled v div 10 ^ 6)"
        "fraction (f32_scaled v mod 10 ^ 6)" "f32_neg v"]
      decimal_digits[of "f32_scaled v div 10 ^ 6"] fraction_digits[of "f32_scaled v mod 10 ^ 6"]
    by simp
qed

lemma Sprintf_line:
  "Sprintf (''%s:%f|'' @ t # ts) [S k, F v] = k @ '':'' @ fmtFloat v @ ''|'' @ Sprintf (t # ts) []"
  by simp

text \<open>
  C8 says that for every \<open>float32\<close> value the operations format the value as a decimal
  rendering. For a value that is not a number, or an infinity, \<open>%f\<close> prints no digit:
  \<open>SetGauge\<close> of a NaN queues the line \<open>k:NaN|g\<close>, \<open>EmitKey\<close> of the positive infinity the
  line \<open>k:+Inf|kv\<close>.
\<close>

theorem emit_of_NaN_is_not_decimal:
  "SetGauge [''k''] 0x7FC00000 (NewStatsiteSink ''h:1'') =
     Inr \<lparr>addr = ''h:1'',
          metricQueue = Some \<lparr>cap = 4096, items = [''k:NaN|g\<newline>''], closed = False\<rparr>\<rparr>
   \<and> EmitKey [''k''] 0x7F800000 (NewStatsiteSink ''h:1'') =
     Inr \<lparr>addr = ''h:1'',
          metricQueue = Some \<lparr>cap = 4096, items = [''k:+Inf|kv\<newline>''], closed = False\<rparr>\<rparr>
   \<and> \<not> decimal_shape ''NaN'' \<and> \<not> decimal_shape ''+Inf''"
  by (simp add: SetGauge_def EmitKey_def fmtFloat_def AppendFloat_def NewStatsiteSink_def
      pushMetric_def chan_send_def flattenKey_def Join_def key_rune_def rune_width_def
      rune_size_def decimal_shape_def is_digit_def)

text \<open>
  C8, amended: for every key, every list of labels and every \<open>float32\<close> value, \<open>SetGauge\<close>
  formats the line \<open>key:value|g\<close>, \<open>EmitKey\<close> the line \<open>key:value|kv\<close>, \<open>IncrCounter\<close> the
  line \<open>key:value|c\<close> and \<open>AddSample\<close> the line \<open>key:value|ms\<close>, each ended by a newline,
  and the three operations with labels format the same lines with the label values in the
  key; the key is the flattened key and the value is what \<open>%f\<close> prints. For a finite value
  that is a decimal rendering: a minus sign exactly when the sign bit is set, the digits
  of the integer part (one at least, no leading zero), a point and exactly six digits, and
  the number of millionths these digits denote is the nearest to the absolute value of the
  \<open>float32\<close>, the even one of the two when it lies half way. For a value that is not finite
  it is \<open>NaN\<close>, \<open>+Inf\<close> or \<open>-Inf\<close>. Each operation is then nothing but \<open>pushMetric\<close> of that
  line, the non-blocking append: on a sink whose channel is not closed it returns the sink
  after \<open>try_push\<close> and nothing else, no value and no error.
\<close>

theorem emit_formats_and_pushes:
  "SetGauge key val s = pushMetric (flattenKey key @ '':'' @ fmtFloat val @ ''|g\<newline>'') s
   \<and> SetGaugeWithLabels key val labels s =
       pushMetric (flattenKeyLabels key labels @ '':'' @ fmtFloat val @ ''|g\<newline>'') s
   \<and> EmitKey key val s = pushMetric (flattenKey key @ '':'' @ fmtFloat val @ ''|kv\<newline>'') s
   \<and> IncrCounter key val s = pushMetric (flattenKey key @ '':'' @ fmtFloat val @ ''|c\<newline>'') s
   \<and> IncrCounterWithLabels key val labels s =
       pushMetric (flattenKeyLabels key labels @ '':'' @ fmtFloat val @ ''|c\<newline>'') s
   \<and> AddSample key val s = pushMetric (flattenKey key @ '':'' @ fmtFloat val @ ''|ms\<newline>'') s
   \<and> AddSampleWithLabels key val labels s =
       pushMetric (flattenKeyLabels key labels @ '':'' @ fmtFloat val @ ''|ms\<newline>'') s
   \<and> (f32_finite val \<longrightarrow>
        decimal_shape (fmtFloat val)
        \<and> (\<exists>ip fp. fmtFloat val = (if f32_neg val then ''-'' else []) @ ip @ ''.'' @ fp
              \<and> ip \<noteq> [] \<and> list_all is_digit ip \<and> (ip = ''0'' \<or> hd ip \<noteq> CHR ''0'')
              \<and> length fp = 6 \<and> list_all is_digit fp
              \<and> 2 * \<bar>int (digits_val ip * 10 ^ 6 + digits_val fp) * int (f32_den val)
                      - int (f32_num val) * 10 ^ 6\<bar> \<le> int (f32_den val)
              \<and> (2 * \<bar>int (digits_val ip * 10 ^ 6 + digits_val fp) * int (f32_den val)
                      - int (f32_num val) * 10 ^ 6\<bar> = int (f32_den val)
                   \<longrightarrow> even (digits_val ip * 10 ^ 6 + digits_val fp))))
   \<and> (\<not> f32_finite val \<longrightarrow>
        fmtFloat val = (if unat val mod 2 ^ 23 \<noteq> 0 then ''NaN''
                        else if f32_neg val then ''-Inf'' else ''+Inf''))
   \<and> (\<not> queue_closed s \<longrightarrow> pushMetric m s = Inr (try_push m s))"
proof (intro conjI impI)
  show "f32_finite val \<Longrightarrow> decimal_shape (fmtFloat val)"
    by (rule fmtFloat_shape)
  show "f32_finite val \<Longrightarrow>
    \<exists>ip fp. fmtFloat val = (if f32_neg val then ''-'' else []) @ ip @ ''.'' @ fp
       \<and> ip \<noteq> [] \<and> list_all is_digit ip \<and> (ip = ''0'' \<or> hd ip \<noteq> CHR ''0'')
       \<and> length fp = 6 \<and> list_all is_digit fp
       \<and> 2 * \<bar>int (digits_val ip * 10 ^ 6 + digits_val fp) * int (f32_den val)
               - int (f32_num val) * 10 ^ 6\<bar> \<le> int (f32_den val)
       \<and> (2 * \<bar>int (digits_val ip * 10 ^ 6 + digits_val fp) * int (f32_den val)
               - int (f32_num val) * 10 ^ 6\<bar> = int (f32_den val)
            \<longrightarrow> even (digits_val ip * 10 ^ 6 + digits_val fp))"
    by (rule fmtFloat_rendering)
  show "\<not> f32_finite val \<Longrightarrow>
    fmtFloat val = (if unat val mod 2 ^ 23 \<noteq> 0 then ''NaN''
                    else if f32_neg val then ''-Inf'' else ''+Inf'')"
    by (rule fmtFloat_special)
  show "\<not> queue_closed s \<Longrightarrow> pushMetric m s = Inr (try_push m s)"
    by (rule pushMetric_open)
qed (simp_all add: SetGauge_def SetGaugeWithLabels_def EmitKey_def IncrCounter_def
    IncrCounterWithLabels_def AddSample_def AddSampleWithLabels_def)

theorem emit_formats_and_pushes_witness:
  "f32_finite 0x3FC00000 \<and> \<not> f32_finite 0xFF800000
   \<and> \<not> queue_closed (NewStatsiteSink ''h:1'')
   \<and> SetGauge [''a'', ''b c''] 0x3FC00000 (NewStatsiteSink ''h:1'') =
       Inr \<lparr>addr = ''h:1'',
            metricQueue = Some \<lparr>cap = 4096, items = [''a.b_c:1.500000|g\<newline>''], closed = False\<rparr>\<rparr>
   \<and> AddSampleWithLabels [''a''] 0xFF800000 [\<lparr>Name = ''dc'', Value = ''x y''\<rparr>]
        (NewStatsiteSink ''h:1'') =
       Inr \<lparr>addr = ''h:1'',
            metricQueue = Some \<lparr>cap = 4096, items = [''a.x_y:-Inf|ms\<newline>''], closed = False\<rparr>\<rparr>
   \<and> decimal_shape (fmtFloat 0x3FC00000)"
  using emit_formats_and_pushes [of "[''a'', ''b c'']" "0x3FC00000" "NewStatsiteSink ''h:1''"
      "[]" "''a.b_c:1.500000|g\<newline>''"]
    emit_formats_and_pushes [of "[''a'']" "0xFF800000" "NewStatsiteSink ''h:1''"
      "[\<lparr>Name = ''dc'', Value = ''x y''\<rparr>]" "''a.x_y:-Inf|ms\<newline>''"]
  by (simp add: queue_closed_def NewStatsiteSink_def try_push_def flattenKey_def
      flattenKeyLabels_def Join_def key_rune_def rune_width_def rune_size_def f32_finite_def
      f32_neg_def fmtFloat_def AppendFloat_def bigFtoa_def Round_def fmtF_def fraction_def
      decimal.simps digit_def pushMetric_def chan_send_def decimal_shape_def is_digit_def)

subsection \<open>The submission queue\<close>

text \<open>
  C2 says that in every state of the queue a push appends the line when fewer than 4096
  entries are waiting. Once the worker has returned, the sink's channel reference is
  \<open>nil\<close>: no entry is waiting, and the line is dropped all the same.
\<close>

theorem pushMetric_nil_queue_counterexample:
  "run [Close, Work (Dial False), Work (Recv [])] (start ''h:1'') =
     Next \<lparr>sink = \<lparr>addr = ''h:1'', metricQueue = None\<rparr>,
           wk = \<lparr>pc = QUIT, sock = None, buffered = None, deferred = []\<rparr>,
           conns = [], logs = [ErrConnecting], enq = [], deq = []\<rparr>
   \<and> chan_len (metricQueue \<lparr>addr = ''h:1'', metricQueue = None\<rparr>) < 4096
   \<and> pushMetric ''m'' \<lparr>addr = ''h:1'', metricQueue = None\<rparr> =
       Inr \<lparr>addr = ''h:1'', metricQueue = None\<rparr>"
  by (simp add: sys_step_def start_def NewStatsiteSink_def Shutdown_def chan_close_def
      pushMetric_def chan_send_def flushMetrics_def chan_recv_def quit_def chan_len_def)

text \<open>
  C2, amended: \<open>pushMetric\<close> never blocks. While the queue of the sink is open (made
  with capacity 4096 and not closed), a line is appended at the tail when fewer than 4096
  entries are waiting, and dropped, with no error and no change of the queue, when 4096 are.
  Once the worker has returned and the reference is \<open>nil\<close>, every line is dropped.
\<close>

theorem pushMetric_open_queue:
  "(metricQueue s = Some c \<and> \<not> closed c \<and> cap c = 4096 \<longrightarrow>
      (length (items c) < 4096 \<longrightarrow>
         pushMetric m s = Inr (s\<lparr>metricQueue := Some (c\<lparr>items := items c @ [m]\<rparr>)\<rparr>))
      \<and> (length (items c) = 4096 \<longrightarrow> pushMetric m s = Inr s))
   \<and> (metricQueue s = None \<longrightarrow> pushMetric m s = Inr s)"
  by (simp add: pushMetric_def chan_send_def)

theorem pushMetric_open_queue_witness:
  "pushMetric ''m'' (NewStatsiteSink ''h:1'') =
     Inr \<lparr>addr = ''h:1'', metricQueue = Some \<lparr>cap = 4096, items = [''m''], closed = False\<rparr>\<rparr>
   \<and> pushMetric ''m''
        \<lparr>addr = ''h:1'',
         metricQueue = Some \<lparr>cap = 4096, items = replicate 4096 ''x'', closed = False\<rparr>\<rparr> =
       Inr \<lparr>addr = ''h:1'',
            metricQueue = Some \<lparr>cap = 4096, items = replicate 4096 ''x'', closed = False\<rparr>\<rparr>
   \<and> pushMetric ''m'' \<lparr>addr = ''h:1'', metricQueue = None\<rparr> =
       Inr \<lparr>addr = ''h:1'', metricQueue = None\<rparr>"
  using pushMetric_open_queue [of "NewStatsiteSink ''h:1''"
          "\<lparr>cap = 4096, items = [], closed = False\<rparr>" "''m''"]
        pushMetric_open_queue [of "\<lparr>addr = ''h:1'',
             metricQueue = Some \<lparr>cap = 4096, items = replicate 4096 ''x'', closed = False\<rparr>\<rparr>"
          "\<lparr>cap = 4096, items = replicate 4096 ''x'', closed = False\<rparr>" "''m''"]
        pushMetric_open_queue [of "\<lparr>addr = ''h:1'', metricQueue = None\<rparr>" c "''m''"]
  by (simp add: NewStatsiteSink_def)

text \<open>The queue of every reachable state is the one \<open>NewStatsiteSink\<close> made.\<close>

lemma queue_cap_step:
  assumes "sys_step a s = Next s'"
    and "case metricQueue (sink s) of None \<Rightarrow> True
         | Some c \<Rightarrow> cap c = 4096 \<and> length (items c) \<le> 4096"
  shows "case metricQueue (sink s') of None \<Rightarrow> True
         | Some c \<Rightarrow> cap c = 4096 \<and> length (items c) \<le> 4096"
proof (cases a)
  case (Emit m)
  with assms show ?thesis
    by (auto simp: sys_step_def pushMetric_def chan_send_def
        split: sum.splits option.splits if_splits)
next
  case Close
  with assms show ?thesis
    by (auto simp: sys_step_def Shutdown_def chan_close_def
        split: sum.splits option.splits if_splits)
next
  case (Work ev)
  with assms(1) have fm: "flushMetrics ev s = Next s'"
    by (simp add: sys_step_def)
  then show ?thesis
  proof (cases rule: flushMetrics_cases)
    case (dial ok)
    with fm assms(2) show ?thesis
      by (auto simp: flushMetrics_Dial split: if_splits)
  next
    case (quit rs c)
    then show ?thesis by (simp add: quit_def)
  next
    case (wline rs c m ms w w' rs' cs' wok)
    with fm assms(2) show ?thesis
      by (auto simp: flushMetrics_Recv_STREAM[OF wline(1,3,4,5,6)])
  next
    case (tick rs w w' rs' cs' fok)
    with fm assms(2) show ?thesis
      by (auto simp: flushMetrics_Tick[OF tick(1,3,4)])
  next
    case (drain rs c m ms)
    with fm assms(2) show ?thesis
      by (auto simp: flushMetrics_Recv_WAIT)
  next
    case elapsed
    with fm assms(2) show ?thesis
      by (auto simp: flushMetrics_Elapsed)
  qed
qed

lemma reachable_queue_cap:
  assumes "run acts (start a) = Next s" and "metricQueue (sink s) = Some c"
  shows "cap c = 4096 \<and> length (items c) \<le> 4096"
proof -
  have "case metricQueue (sink s) of None \<Rightarrow> True
         | Some c \<Rightarrow> cap c = 4096 \<and> length (items c) \<le> 4096"
    by (rule run_invariant[OF assms(1)])
       (simp_all add: start_def NewStatsiteSink_def queue_cap_step)
  with assms(2) show ?thesis by simp
qed

subsection \<open>What a step does to the connections\<close>

lemma write_effect:
  assumes "sys_inv s" and "pc (wk s) = STREAM" and q: "metricQueue (sink s) = Some c"
    "items c = m # ms" and "buffered (wk s) = Some w"
    and wr: "Write w m (rs, conns s) = (w', (rs', cs'), wok)"
    and step: "flushMetrics (Recv rs) s = Next s'"
  shows "\<exists>x. conns s' = butlast (conns s) @
            [(last (conns s))\<lparr>wire := x, lines_in := lines_in (last (conns s)) @ [m]\<rparr>]"
    and "conns s \<noteq> []"
    and "written s' = written s @ [m]"
    and "sink s' = (sink s)\<lparr>metricQueue := Some (c\<lparr>items := ms\<rparr>)\<rparr>"
    and "enq s' = enq s" and "deq s' = deq s @ [m]"
    and "pc (wk s') = (if wok then STREAM else WAIT)"
    and "logs s' = logs s @ (if wok then [] else [ErrWriting])"
proof -
  from assms(1,2,5) have ok: "conns s \<noteq> []" "Suc (wr w) = length (conns s)"
    by (simp_all add: sys_inv_def streaming_ok_def)
  let ?l = "last (conns s)"
  have lt: "wr w < length (snd (rs, conns s))" using ok(2) by simp
  from Write_shape[OF wr lt] obtain x where x: "cs' = wire_upd (wr w) x (conns s)"
    by auto
  have cs': "cs' = butlast (conns s) @ [?l\<lparr>wire := x\<rparr>]"
    using x ok(2) by (simp add: wire_upd_last)
  have len': "Suc (wr w) = length cs'"
    using ok(2) by (simp add: x)
  have nl: "note_line (wr w) m cs' =
      butlast (conns s) @ [?l\<lparr>wire := x, lines_in := lines_in ?l @ [m]\<rparr>]"
    unfolding note_line_last[OF len'] by (simp add: cs')
  have s': "s' = s\<lparr>sink := (sink s)\<lparr>metricQueue := Some (c\<lparr>items := ms\<rparr>)\<rparr>,
             deq := deq s @ [m],
             conns := note_line (wr w) m cs',
             wk := (wk s)\<lparr>buffered := Some w', pc := (if wok then STREAM else WAIT)\<rparr>,
             logs := logs s @ (if wok then [] else [ErrWriting])\<rparr>"
    using step flushMetrics_Recv_STREAM[OF assms(2) q assms(5) wr] by simp
  show "\<exists>x. conns s' = butlast (conns s) @
            [?l\<lparr>wire := x, lines_in := lines_in ?l @ [m]\<rparr>]"
    by (rule exI[of _ x]) (simp add: s' nl)
  show "conns s \<noteq> []" by (rule ok(1))
  show "written s' = written s @ [m]"
    using ok(1) by (simp add: s' nl written_def written_split)
  show "sink s' = (sink s)\<lparr>metricQueue := Some (c\<lparr>items := ms\<rparr>)\<rparr>"
    "enq s' = enq s" "deq s' = deq s @ [m]" "pc (wk s') = (if wok then STREAM else WAIT)"
    "logs s' = logs s @ (if wok then [] else [ErrWriting])"
    by (simp_all add: s')
qed

lemma tick_effect:
  assumes "sys_inv s" and "pc (wk s) = STREAM" and "buffered (wk s) = Some w"
    and fl: "Flush w (rs, conns s) = (w', (rs', cs'), fok)"
    and step: "flushMetrics (Tick rs) s = Next s'"
  shows "\<exists>x. conns s' = butlast (conns s) @ [(last (conns s))\<lparr>wire := x\<rparr>]"
    and "conns s \<noteq> []"
    and "written s' = written s"
    and "sink s' = sink s" and "enq s' = enq s" and "deq s' = deq s"
    and "pc (wk s') = (if fok then STREAM else WAIT)"
    and "logs s' = logs s @ (if fok then [] else [ErrFlushing])"
proof -
  from assms(1,2,3) have ok: "conns s \<noteq> []" "Suc (wr w) = length (conns s)"
    by (simp_all add: sys_inv_def streaming_ok_def)
  have lt: "wr w < length (snd (rs, conns s))" using ok(2) by simp
  from Flush_shape[OF fl lt] obtain x where x: "cs' = wire_upd (wr w) x (conns s)"
    by auto
  have cs': "cs' = butlast (conns s) @ [(last (conns s))\<lparr>wire := x\<rparr>]"
    using x ok(2) by (simp add: wire_upd_last)
  have s': "s' = s\<lparr>conns := cs',
             wk := (wk s)\<lparr>buffered := Some w', pc := (if fok then STREAM else WAIT)\<rparr>,
             logs := logs s @ (if fok then [] else [ErrFlushing])\<rparr>"
    using step flushMetrics_Tick[OF assms(2,3) fl] by simp
  show "\<exists>x. conns s' = butlast (conns s) @ [(last (conns s))\<lparr>wire := x\<rparr>]"
    by (rule exI[of _ x]) (simp add: s' cs')
  show "conns s \<noteq> []" by (rule ok(1))
  show "written s' = written s"
    using ok(1) by (simp add: s' cs' written_def written_split)
  show "sink s' = sink s" "enq s' = enq s" "deq s' = deq s"
    "pc (wk s') = (if fok then STREAM else WAIT)"
    "logs s' = logs s @ (if fok then [] else [ErrFlushing])"
    by (simp_all add: s')
qed

text \<open>Only the connection dialled last is ever written to.\<close>

lemma older_step:
  assumes "sys_step a s = Next s'" and "sys_inv s"
  shows "prefix (butlast (map carried (conns s))) (map carried (conns s'))
         \<and> length (conns s) \<le> length (conns s')"
proof (cases a)
  case (Emit m)
  with assms(1) have "conns s' = conns s"
    by (auto simp: sys_step_def split: sum.splits)
  then show ?thesis by (simp add: prefixeq_butlast)
next
  case Close
  with assms(1) have "conns s' = conns s"
    by (auto simp: sys_step_def split: sum.splits)
  then show ?thesis by (simp add: prefixeq_butlast)
next
  case (Work ev)
  with assms(1) have fm: "flushMetrics ev s = Next s'"
    by (simp add: sys_step_def)
  then show ?thesis
  proof (cases rule: flushMetrics_cases)
    case (dial ok)
    with fm have "conns s' = conns s \<or> (\<exists>c. conns s' = conns s @ [c])"
      by (auto simp: flushMetrics_Dial split: if_splits)
    then show ?thesis
      by (auto simp: prefixeq_butlast intro: prefix_order.trans[OF prefixeq_butlast])
  next
    case (quit rs c)
    have "map carried (conns (quit s)) = map carried (conns s)"
      by (simp add: quit_def closing_map carried_def)
    moreover have "length (conns (quit s)) = length (conns s)"
      by (simp add: quit_def)
    ultimately show ?thesis using quit(6) by (simp add: prefixeq_butlast)
  next
    case (wline rs c m ms w w' rs' cs' wok)
    from write_effect(1,2)[OF assms(2) wline(1,3,4,5,6)] fm wline(2)
    obtain x where "conns s' = butlast (conns s) @
            [(last (conns s))\<lparr>wire := x, lines_in := lines_in (last (conns s)) @ [m]\<rparr>]"
      and "conns s \<noteq> []"
      by auto
    then show ?thesis by (simp add: map_butlast)
  next
    case (tick rs w w' rs' cs' fok)
    from tick_effect(1,2)[OF assms(2) tick(1,3,4)] fm tick(2)
    obtain x where "conns s' = butlast (conns s) @ [(last (conns s))\<lparr>wire := x\<rparr>]"
      and "conns s \<noteq> []"
      by auto
    then show ?thesis by (simp add: map_butlast)
  next
    case (drain rs c m ms)
    with fm have "conns s' = conns s" by (auto simp: flushMetrics_Recv_WAIT)
    then show ?thesis by (simp add: prefixeq_butlast)
  next
    case elapsed
    with fm have "conns s' = conns s" by (auto simp: flushMetrics_Elapsed)
    then show ?thesis by (simp add: prefixeq_butlast)
  qed
qed

lemma prefix_butlast_mono:
  assumes "prefix (butlast xs) ys" and "length xs \<le> length ys"
  shows "prefix (butlast xs) (butlast ys)"
proof -
  from assms(1) obtain zs where ys: "ys = butlast xs @ zs"
    by (auto simp: prefix_def)
  show ?thesis
  proof (cases zs)
    case Nil
    with ys assms(2) have "xs = []" by (cases xs rule: rev_cases) auto
    then show ?thesis by simp
  next
    case (Cons z zs')
    then have "butlast ys = butlast xs @ butlast zs"
      using ys by (simp add: butlast_append)
    then show ?thesis by simp
  qed
qed

lemma older_run:
  assumes "run acts s = Next s'" and "sys_inv s"
  shows "prefix (butlast (map carried (conns s))) (map carried (conns s'))
         \<and> length (conns s) \<le> length (conns s')"
  using assms
proof (induction acts arbitrary: s)
  case Nil
  then show ?case by (simp add: prefixeq_butlast)
next
  case (Cons a acts)
  then obtain s1 where s1: "sys_step a s = Next s1" "run acts s1 = Next s'"
    by (auto split: outcome.splits)
  from older_step[OF s1(1) Cons.prems(2)]
  have a: "prefix (butlast (map carried (conns s))) (map carried (conns s1))"
    "length (conns s) \<le> length (conns s1)" by simp_all
  from Cons.IH[OF s1(2) inv_step[OF s1(1) Cons.prems(2)]]
  have b: "prefix (butlast (map carried (conns s1))) (map carried (conns s'))"
    "length (conns s1) \<le> length (conns s')" by simp_all
  have "prefix (butlast (map carried (conns s))) (butlast (map carried (conns s1)))"
    using a by (intro prefix_butlast_mono) simp_all
  with b a(2) show ?case by (auto intro: prefix_order.trans)
qed

subsection \<open>How the worker terminates\<close>

text \<open>The definitions that evaluate a concrete run.\<close>

lemmas eval_defs =
  state_after_def start_def NewStatsiteSink_def sys_step_def flushMetrics_def quit_def
  pushMetric_def Shutdown_def chan_send_def chan_recv_def chan_close_def
  close_conn_def note_line_def Write_def Flush_def net_write_def conn_Write_def bufSize_def
  Write_loop.simps

lemma open_queue_step:
  assumes "sys_step a s = Next s'" and "a \<noteq> Close"
    and "\<exists>c. metricQueue (sink s) = Some c \<and> \<not> closed c" and "pc (wk s) \<noteq> QUIT"
  shows "(\<exists>c. metricQueue (sink s') = Some c \<and> \<not> closed c) \<and> pc (wk s') \<noteq> QUIT"
proof (cases a)
  case (Emit m)
  with assms show ?thesis
    by (auto simp: sys_step_def pushMetric_def chan_send_def split: sum.splits if_splits)
next
  case Close
  with assms show ?thesis by simp
next
  case (Work ev)
  with assms(1) have fm: "flushMetrics ev s = Next s'"
    by (simp add: sys_step_def)
  then show ?thesis
  proof (cases rule: flushMetrics_cases)
    case (dial ok)
    with fm assms(3) show ?thesis
      by (auto simp: flushMetrics_Dial split: if_splits)
  next
    case (quit rs c)
    with assms(3) show ?thesis by simp
  next
    case (wline rs c m ms w w' rs' cs' wok)
    with fm assms(3) show ?thesis
      by (auto simp: flushMetrics_Recv_STREAM[OF wline(1,3,4,5,6)] split: if_splits)
  next
    case (tick rs w w' rs' cs' fok)
    with fm assms(3) show ?thesis
      by (auto simp: flushMetrics_Tick[OF tick(1,3,4)] split: if_splits)
  next
    case (drain rs c m ms)
    with fm assms(3) show ?thesis
      by (auto simp: flushMetrics_Recv_WAIT)
  next
    case elapsed
    with fm assms(3) show ?thesis
      by (auto simp: flushMetrics_Elapsed)
  qed
qed

lemma no_QUIT_without_Shutdown:
  assumes "run acts s = Next s'" and "Close \<notin> set acts"
    and "\<exists>c. metricQueue (sink s) = Some c \<and> \<not> closed c" and "pc (wk s) \<noteq> QUIT"
  shows "pc (wk s') \<noteq> QUIT"
  using assms
proof (induction acts arbitrary: s)
  case Nil
  then show ?case by simp
next
  case (Cons a acts)
  then obtain s1 where s1: "sys_step a s = Next s1" "run acts s1 = Next s'"
    by (auto split: outcome.splits)
  from Cons.prems(2) have "a \<noteq> Close" "Close \<notin> set acts" by auto
  from open_queue_step[OF s1(1) this(1) Cons.prems(3,4)] Cons.IH[OF s1(2) this(2)]
  show ?case by simp
qed


text \<open>
  C3: a step of the worker ends at \<open>QUIT\<close> only when it is a receive, taken in the
  streaming loop or in the loop at \<open>WAIT\<close>, that finds the channel closed and empty. A
  failed dial, a failed write of a received line and a failed flush each log the error and
  lead to \<open>WAIT\<close>, never to \<open>QUIT\<close>. And the channel is closed by \<open>Shutdown\<close> only: a
  run that ends with the worker at \<open>QUIT\<close> contains a \<open>Shutdown\<close>.
\<close>

theorem QUIT_only_on_closed_queue:
  "(flushMetrics ev s = Next s' \<and> pc (wk s') = QUIT \<longrightarrow>
      (pc (wk s) = STREAM \<or> pc (wk s) = WAIT) \<and> (\<exists>rs. ev = Recv rs)
      \<and> (\<exists>c. metricQueue (sink s) = Some c \<and> closed c \<and> items c = []))
   \<and> (pc (wk s) = CONNECT \<longrightarrow>
        (\<exists>t. flushMetrics (Dial False) s = Next t \<and> pc (wk t) = WAIT
             \<and> logs t = logs s @ [ErrConnecting]))
   \<and> (pc (wk s) = STREAM \<and> metricQueue (sink s) = Some c \<and> items c = m # ms
        \<and> buffered (wk s) = Some w \<and> \<not> snd (snd (Write w m (rs, conns s))) \<longrightarrow>
        (\<exists>t. flushMetrics (Recv rs) s = Next t \<and> pc (wk t) = WAIT
             \<and> logs t = logs s @ [ErrWriting]))
   \<and> (pc (wk s) = STREAM \<and> buffered (wk s) = Some w
        \<and> \<not> snd (snd (Flush w (rs, conns s))) \<longrightarrow>
        (\<exists>t. flushMetrics (Tick rs) s = Next t \<and> pc (wk t) = WAIT
             \<and> logs t = logs s @ [ErrFlushing]))
   \<and> (run acts (start a) = Next u \<and> pc (wk u) = QUIT \<longrightarrow> Close \<in> set acts)"
proof (intro conjI impI)
  assume a: "flushMetrics ev s = Next s' \<and> pc (wk s') = QUIT"
  then have fm: "flushMetrics ev s = Next s'" and q: "pc (wk s') = QUIT" by simp_all
  from fm have "(pc (wk s) = STREAM \<or> pc (wk s) = WAIT) \<and> (\<exists>rs. ev = Recv rs)
      \<and> (\<exists>c. metricQueue (sink s) = Some c \<and> closed c \<and> items c = [])"
  proof (cases rule: flushMetrics_cases)
    case (dial ok)
    with fm q show ?thesis by (auto simp: flushMetrics_Dial split: if_splits)
  next
    case (quit rs c)
    then show ?thesis by auto
  next
    case (wline rs c m ms w w' rs' cs' wok)
    with fm q show ?thesis
      by (auto simp: flushMetrics_Recv_STREAM[OF wline(1,3,4,5,6)] split: if_splits)
  next
    case (tick rs w w' rs' cs' fok)
    with fm q show ?thesis
      by (auto simp: flushMetrics_Tick[OF tick(1,3,4)] split: if_splits)
  next
    case (drain rs c m ms)
    with fm q show ?thesis by (auto simp: flushMetrics_Recv_WAIT)
  next
    case elapsed
    with fm q show ?thesis by (auto simp: flushMetrics_Elapsed)
  qed
  then show "pc (wk s) = STREAM \<or> pc (wk s) = WAIT" "\<exists>rs. ev = Recv rs"
    "\<exists>c. metricQueue (sink s) = Some c \<and> closed c \<and> items c = []"
    by simp_all
next
  assume "pc (wk s) = CONNECT"
  then show "\<exists>t. flushMetrics (Dial False) s = Next t \<and> pc (wk t) = WAIT
             \<and> logs t = logs s @ [ErrConnecting]"
    by (simp add: flushMetrics_Dial)
next
  assume a: "pc (wk s) = STREAM \<and> metricQueue (sink s) = Some c \<and> items c = m # ms
        \<and> buffered (wk s) = Some w \<and> \<not> snd (snd (Write w m (rs, conns s)))"
  obtain w' rs' cs' wok where wr: "Write w m (rs, conns s) = (w', (rs', cs'), wok)"
    by (cases "Write w m (rs, conns s)") auto
  with a have "\<not> wok" by simp
  with a wr show "\<exists>t. flushMetrics (Recv rs) s = Next t \<and> pc (wk t) = WAIT
             \<and> logs t = logs s @ [ErrWriting]"
    by (simp add: flushMetrics_Recv_STREAM[OF _ _ _ _ wr])
next
  assume a: "pc (wk s) = STREAM \<and> buffered (wk s) = Some w
        \<and> \<not> snd (snd (Flush w (rs, conns s)))"
  obtain w' rs' cs' fok where fl: "Flush w (rs, conns s) = (w', (rs', cs'), fok)"
    by (cases "Flush w (rs, conns s)") auto
  with a have "\<not> fok" by simp
  with a fl show "\<exists>t. flushMetrics (Tick rs) s = Next t \<and> pc (wk t) = WAIT
             \<and> logs t = logs s @ [ErrFlushing]"
    by (simp add: flushMetrics_Tick[OF _ _ fl])
next
  assume a: "run acts (start a) = Next u \<and> pc (wk u) = QUIT"
  show "Close \<in> set acts"
  proof (rule ccontr)
    assume "Close \<notin> set acts"
    with a no_QUIT_without_Shutdown[of acts "start a" u] show False
      by (simp add: start_def NewStatsiteSink_def)
  qed
qed

theorem QUIT_only_on_closed_queue_witness:
  "flushMetrics (Recv []) (state_after [Close, Work (Dial False)]) =
     Next (state_after [Close, Work (Dial False), Work (Recv [])])
   \<and> pc (wk (state_after [Close, Work (Dial False), Work (Recv [])])) = QUIT
   \<and> pc (wk (state_after [Close, Work (Dial False)])) = WAIT
   \<and> metricQueue (sink (state_after [Close, Work (Dial False)])) =
       Some \<lparr>cap = 4096, items = [], closed = True\<rparr>
   \<and> pc (wk (state_after [])) = CONNECT
   \<and> flushMetrics (Dial False) (state_after []) = Next (state_after [Work (Dial False)])
   \<and> pc (wk (state_after [Work (Dial False)])) = WAIT
   \<and> logs (state_after [Work (Dial False)]) = [ErrConnecting]
   \<and> pc (wk (state_after [Work (Dial True), Emit (replicate 4097 CHR ''x'')])) = STREAM
   \<and> \<not> snd (snd (Write \<lparr>wr = 0, buf = [], werr = False\<rparr> (replicate 4097 CHR ''x'')
             ([NetErr 0],
              conns (state_after [Work (Dial True), Emit (replicate 4097 CHR ''x'')]))))
   \<and> flushMetrics (Recv [NetErr 0])
         (state_after [Work (Dial True), Emit (replicate 4097 CHR ''x'')]) =
       Next (state_after [Work (Dial True), Emit (replicate 4097 CHR ''x''),
               Work (Recv [NetErr 0])])
   \<and> pc (wk (state_after [Work (Dial True), Emit (replicate 4097 CHR ''x''),
               Work (Recv [NetErr 0])])) = WAIT
   \<and> logs (state_after [Work (Dial True), Emit (replicate 4097 CHR ''x''),
               Work (Recv [NetErr 0])]) = [ErrWriting]
   \<and> pc (wk (state_after [Work (Dial True), Emit ''a'', Work (Recv [])])) = STREAM
   \<and> \<not> snd (snd (Flush \<lparr>wr = 0, buf = ''a'', werr = False\<rparr>
             ([NetErr 0], conns (state_after [Work (Dial True), Emit ''a'', Work (Recv [])]))))
   \<and> flushMetrics (Tick [NetErr 0]) (state_after [Work (Dial True), Emit ''a'', Work (Recv [])]) =
       Next (state_after [Work (Dial True), Emit ''a'', Work (Recv []), Work (Tick [NetErr 0])])
   \<and> pc (wk (state_after [Work (Dial True), Emit ''a'', Work (Recv []),
               Work (Tick [NetErr 0])])) = WAIT
   \<and> logs (state_after [Work (Dial True), Emit ''a'', Work (Recv []),
               Work (Tick [NetErr 0])]) = [ErrFlushing]
   \<and> run [Close, Work (Dial False), Work (Recv [])] (start ''statsite:8125'') =
       Next (state_after [Close, Work (Dial False), Work (Recv [])])
   \<and> Close \<in> set [Close, Work (Dial False), Work (Recv [])]"
  using QUIT_only_on_closed_queue [of "Recv []" "state_after [Close, Work (Dial False)]"
      "state_after [Close, Work (Dial False), Work (Recv [])]" c m ms w rs
      "[Close, Work (Dial False), Work (Recv [])]" "''statsite:8125''"
      "state_after [Close, Work (Dial False), Work (Recv [])]"]
    QUIT_only_on_closed_queue [of ev "state_after []" s' c m ms w rs acts a u]
    QUIT_only_on_closed_queue [of ev
      "state_after [Work (Dial True), Emit (replicate 4097 CHR ''x'')]" s'
      "\<lparr>cap = 4096, items = [replicate 4097 CHR ''x''], closed = False\<rparr>"
      "replicate 4097 CHR ''x''" "[]" "\<lparr>wr = 0, buf = [], werr = False\<rparr>" "[NetErr 0]"
      acts a u]
    QUIT_only_on_closed_queue [of ev
      "state_after [Work (Dial True), Emit ''a'', Work (Recv [])]" s' c m ms
      "\<lparr>wr = 0, buf = ''a'', werr = False\<rparr>" "[NetErr 0]" acts a u]
  by (simp add: eval_defs)

subsection \<open>The loop at WAIT\<close>

lemma waiting_step:
  assumes "sys_step a s = Next s'" and "a \<noteq> Work Elapsed"
    and "pc (wk s) = WAIT \<or> pc (wk s) = QUIT"
  shows "(pc (wk s') = WAIT \<or> pc (wk s') = QUIT)
         \<and> map carried (conns s') = map carried (conns s)"
proof (cases a)
  case (Emit m)
  with assms show ?thesis
    by (auto simp: sys_step_def split: sum.splits)
next
  case Close
  with assms show ?thesis
    by (auto simp: sys_step_def split: sum.splits)
next
  case (Work ev)
  with assms(1) have fm: "flushMetrics ev s = Next s'"
    by (simp add: sys_step_def)
  then show ?thesis
  proof (cases rule: flushMetrics_cases)
    case (quit rs c)
    have "map carried (conns (quit s)) = map carried (conns s)"
      by (simp add: quit_def closing_map carried_def)
    with quit show ?thesis by (simp add: quit_def)
  next
    case (drain rs c m ms)
    with fm show ?thesis by (auto simp: flushMetrics_Recv_WAIT)
  next
    case elapsed
    with assms(2) Work show ?thesis by simp
  qed (use assms(3) in auto)
qed

lemma waiting_run:
  assumes "run acts s = Next s'" and "Work Elapsed \<notin> set acts"
    and "pc (wk s) = WAIT \<or> pc (wk s) = QUIT"
  shows "(pc (wk s') = WAIT \<or> pc (wk s') = QUIT)
         \<and> map carried (conns s') = map carried (conns s)"
  using assms
proof (induction acts arbitrary: s)
  case Nil
  then show ?case by simp
next
  case (Cons a acts)
  then obtain s1 where s1: "sys_step a s = Next s1" "run acts s1 = Next s'"
    by (auto split: outcome.splits)
  from Cons.prems(2) have n: "a \<noteq> Work Elapsed" "Work Elapsed \<notin> set acts" by auto
  from waiting_step[OF s1(1) n(1) Cons.prems(3)]
  have 1: "pc (wk s1) = WAIT \<or> pc (wk s1) = QUIT"
    "map carried (conns s1) = map carried (conns s)" by simp_all
  from Cons.IH[OF s1(2) n(2) 1(1)] 1(2) show ?case by simp
qed

text \<open>
  C4 says that every line that arrives on the queue during the wait is received and
  discarded, never written to any connection, and that the worker goes to \<open>TERMINATED\<close>
  if the queue is closed during the drain. The select at \<open>WAIT\<close> takes the elapsed timer
  as readily as the queue: a line that arrived during the wait and is still in the queue
  when the timer is taken stays there, and is written once the worker has connected; and
  after a close during the wait the worker can go to \<open>CONNECT\<close>, not to \<open>QUIT\<close>.
\<close>

theorem line_queued_in_BACKOFF_is_written:
  "run [Work (Dial False), Emit ''a''] (start ''h:1'') =
     Next \<lparr>sink = \<lparr>addr = ''h:1'',
                    metricQueue = Some \<lparr>cap = 4096, items = [''a''], closed = False\<rparr>\<rparr>,
           wk = \<lparr>pc = WAIT, sock = None, buffered = None, deferred = []\<rparr>,
           conns = [], logs = [ErrConnecting], enq = [''a''], deq = []\<rparr>
   \<and> run [Work (Dial False), Emit ''a'', Work Elapsed, Work (Dial True), Work (Recv []),
          Work (Tick [])] (start ''h:1'') =
     Next \<lparr>sink = \<lparr>addr = ''h:1'',
                    metricQueue = Some \<lparr>cap = 4096, items = [], closed = False\<rparr>\<rparr>,
           wk = \<lparr>pc = STREAM, sock = Some 0,
                  buffered = Some \<lparr>wr = 0, buf = [], werr = False\<rparr>, deferred = [0]\<rparr>,
           conns = [\<lparr>wire = ''a'', lines_in = [''a''], is_open = True\<rparr>],
           logs = [ErrConnecting], enq = [''a''], deq = [''a'']\<rparr>
   \<and> run [Work (Dial False), Close, Work Elapsed] (start ''h:1'') =
     Next \<lparr>sink = \<lparr>addr = ''h:1'',
                    metricQueue = Some \<lparr>cap = 4096, items = [], closed = True\<rparr>\<rparr>,
           wk = \<lparr>pc = CONNECT, sock = None, buffered = None, deferred = []\<rparr>,
           conns = [], logs = [ErrConnecting], enq = [], deq = []\<rparr>"
  by (simp add: eval_defs)

text \<open>
  C4, amended: in the loop at \<open>WAIT\<close> every line the worker receives from the queue is
  dropped: the step only takes it off the queue, and hands nothing to any connection. When
  the wait is over (the event \<open>Elapsed\<close>) the worker goes to \<open>CONNECT\<close> and nothing else
  changes, so that a line still in the queue stays there; when a receive finds the queue
  closed and empty the worker goes to \<open>QUIT\<close>. And as long as the wait is not over,
  whatever the producers push and the worker receives, the worker stays in the loop (or
  has quit) and no connection has carried or been handed anything more.
\<close>

theorem BACKOFF_drains_the_queue:
  "pc (wk s) = WAIT \<longrightarrow>
     (metricQueue (sink s) = Some c \<and> items c = m # ms \<longrightarrow>
        flushMetrics (Recv rs) s =
          Next (s\<lparr>sink := (sink s)\<lparr>metricQueue := Some (c\<lparr>items := ms\<rparr>)\<rparr>,
                  deq := deq s @ [m]\<rparr>))
     \<and> flushMetrics Elapsed s = Next (s\<lparr>wk := (wk s)\<lparr>pc := CONNECT\<rparr>\<rparr>)
     \<and> (metricQueue (sink s) = Some c \<and> items c = [] \<and> closed c \<longrightarrow>
          flushMetrics (Recv rs) s = Next (quit s) \<and> pc (wk (quit s)) = QUIT)
     \<and> (run acts s = Next s' \<and> Work Elapsed \<notin> set acts \<longrightarrow>
          (pc (wk s') = WAIT \<or> pc (wk s') = QUIT)
          \<and> map carried (conns s') = map carried (conns s))"
proof (intro impI conjI)
  assume w: "pc (wk s) = WAIT"
  show "flushMetrics Elapsed s = Next (s\<lparr>wk := (wk s)\<lparr>pc := CONNECT\<rparr>\<rparr>)"
    using w by (rule flushMetrics_Elapsed)
  {
    assume "metricQueue (sink s) = Some c \<and> items c = m # ms"
    with w show "flushMetrics (Recv rs) s =
          Next (s\<lparr>sink := (sink s)\<lparr>metricQueue := Some (c\<lparr>items := ms\<rparr>)\<rparr>,
                  deq := deq s @ [m]\<rparr>)"
      by (simp add: flushMetrics_Recv_WAIT)
  }
  {
    assume "metricQueue (sink s) = Some c \<and> items c = [] \<and> closed c"
    with w show "flushMetrics (Recv rs) s = Next (quit s)" "pc (wk (quit s)) = QUIT"
      by (simp_all add: flushMetrics_Recv_closed quit_def)
  }
  {
    assume "run acts s = Next s' \<and> Work Elapsed \<notin> set acts"
    with w waiting_run[of acts s s']
    show "pc (wk s') = WAIT \<or> pc (wk s') = QUIT"
      "map carried (conns s') = map carried (conns s)"
      by simp_all
  }
qed

theorem BACKOFF_drains_the_queue_witness:
  "pc (wk (state_after [Work (Dial False), Emit ''a'', Emit ''b''])) = WAIT
   \<and> metricQueue (sink (state_after [Work (Dial False), Emit ''a'', Emit ''b''])) =
       Some \<lparr>cap = 4096, items = [''a'', ''b''], closed = False\<rparr>
   \<and> flushMetrics (Recv []) (state_after [Work (Dial False), Emit ''a'', Emit ''b'']) =
       Next (state_after [Work (Dial False), Emit ''a'', Emit ''b'', Work (Recv [])])
   \<and> qitems (sink (state_after [Work (Dial False), Emit ''a'', Emit ''b'', Work (Recv [])])) =
       [''b'']
   \<and> conns (state_after [Work (Dial False), Emit ''a'', Emit ''b'', Work (Recv [])]) = []
   \<and> flushMetrics Elapsed (state_after [Work (Dial False), Emit ''a'', Emit ''b'']) =
       Next (state_after [Work (Dial False), Emit ''a'', Emit ''b'', Work Elapsed])
   \<and> pc (wk (state_after [Work (Dial False), Emit ''a'', Emit ''b'', Work Elapsed])) = CONNECT
   \<and> run [Work (Recv []), Emit ''c'', Work (Recv []), Work (Recv [])]
         (state_after [Work (Dial False), Emit ''a'', Emit ''b'']) =
       Next (state_after [Work (Dial False), Emit ''a'', Emit ''b'', Work (Recv []), Emit ''c'',
                 Work (Recv []), Work (Recv [])])
   \<and> Work Elapsed \<notin> set [Work (Recv []), Emit ''c'', Work (Recv []), Work (Recv [])]
   \<and> deq (state_after [Work (Dial False), Emit ''a'', Emit ''b'', Work (Recv []), Emit ''c'',
                 Work (Recv []), Work (Recv [])]) = [''a'', ''b'', ''c'']
   \<and> pc (wk (state_after [Work (Dial False), Emit ''a'', Emit ''b'', Work (Recv []), Emit ''c'',
                 Work (Recv []), Work (Recv [])])) = WAIT
   \<and> pc (wk (state_after [Work (Dial False), Close])) = WAIT
   \<and> metricQueue (sink (state_after [Work (Dial False), Close])) =
       Some \<lparr>cap = 4096, items = [], closed = True\<rparr>
   \<and> flushMetrics (Recv []) (state_after [Work (Dial False), Close]) =
       Next (quit (state_after [Work (Dial False), Close]))
   \<and> pc (wk (quit (state_after [Work (Dial False), Close]))) = QUIT"
  using BACKOFF_drains_the_queue [of "state_after [Work (Dial False), Emit ''a'', Emit ''b'']"
      "\<lparr>cap = 4096, items = [''a'', ''b''], closed = False\<rparr>" "''a''" "[''b'']" "[]"
      "[Work (Recv []), Emit ''c'', Work (Recv []), Work (Recv [])]"
      "state_after [Work (Dial False), Emit ''a'', Emit ''b'', Work (Recv []), Emit ''c'',
                 Work (Recv []), Work (Recv [])]"]
    BACKOFF_drains_the_queue [of "state_after [Work (Dial False), Close]"
      "\<lparr>cap = 4096, items = [], closed = True\<rparr>" m ms "[]" acts s']
  by (simp add: eval_defs qitems_def)

subsection \<open>The order of the lines on the network\<close>

text \<open>
  C9: in every reachable state, the lines handed to the writers of the connections, in the
  order of the connections and of the writes, are a subsequence of the lines the queue
  accepted, in the order it accepted them; every connection has carried a prefix of the
  bytes of the lines handed to its writer; and all connections but the last are left as
  they are by whatever happens later, so the order of the connections is the order in
  time. Lines are dropped, and none overtakes another.
\<close>

theorem survivors_keep_their_order:
  "run acts (start a) = Next s \<longrightarrow>
     subseq (written s) (enq s)
     \<and> list_all (\<lambda>c. prefix (wire c) (concat (lines_in c))) (conns s)
     \<and> (run further s = Next s' \<longrightarrow>
          prefix (butlast (map carried (conns s))) (map carried (conns s')))"
proof (intro impI conjI)
  assume r: "run acts (start a) = Next s"
  from reachable_inv[OF r] have i: "sys_inv s" .
  then show "subseq (written s) (enq s)"
    by (simp add: sys_inv_def subseq_rev_drop_many)
  from i show "list_all (\<lambda>c. prefix (wire c) (concat (lines_in c))) (conns s)"
    by (simp add: sys_inv_def)
  assume "run further s = Next s'"
  from older_run[OF this i]
  show "prefix (butlast (map carried (conns s))) (map carried (conns s'))"
    by simp
qed

theorem survivors_keep_their_order_witness:
  "run [Work (Dial True), Emit ''a'', Emit ''b'', Emit ''c'', Work (Recv []), Work (Tick []),
        Work (Recv [NetErr 0]), Work (Tick [NetErr 0]), Work (Recv []), Work Elapsed,
        Work (Dial True)] (start ''statsite:8125'') =
     Next (state_after [Work (Dial True), Emit ''a'', Emit ''b'', Emit ''c'', Work (Recv []),
        Work (Tick []), Work (Recv [NetErr 0]), Work (Tick [NetErr 0]), Work (Recv []),
        Work Elapsed, Work (Dial True)])
   \<and> enq (state_after [Work (Dial True), Emit ''a'', Emit ''b'', Emit ''c'', Work (Recv []),
        Work (Tick []), Work (Recv [NetErr 0]), Work (Tick [NetErr 0]), Work (Recv []),
        Work Elapsed, Work (Dial True)]) = [''a'', ''b'', ''c'']
   \<and> written (state_after [Work (Dial True), Emit ''a'', Emit ''b'', Emit ''c'', Work (Recv []),
        Work (Tick []), Work (Recv [NetErr 0]), Work (Tick [NetErr 0]), Work (Recv []),
        Work Elapsed, Work (Dial True)]) = [''a'', ''b'']
   \<and> map wire (conns (state_after [Work (Dial True), Emit ''a'', Emit ''b'', Emit ''c'',
        Work (Recv []), Work (Tick []), Work (Recv [NetErr 0]), Work (Tick [NetErr 0]),
        Work (Recv []), Work Elapsed, Work (Dial True)])) = [''a'', '''']
   \<and> run [Emit ''d'', Work (Recv []), Work (Tick [])]
        (state_after [Work (Dial True), Emit ''a'', Emit ''b'', Emit ''c'', Work (Recv []),
        Work (Tick []), Work (Recv [NetErr 0]), Work (Tick [NetErr 0]), Work (Recv []),
        Work Elapsed, Work (Dial True)]) =
     Next (state_after [Work (Dial True), Emit ''a'', Emit ''b'', Emit ''c'', Work (Recv []),
        Work (Tick []), Work (Recv [NetErr 0]), Work (Tick [NetErr 0]), Work (Recv []),
        Work Elapsed, Work (Dial True), Emit ''d'', Work (Recv []), Work (Tick [])])
   \<and> map wire (conns (state_after [Work (Dial True), Emit ''a'', Emit ''b'', Emit ''c'',
        Work (Recv []), Work (Tick []), Work (Recv [NetErr 0]), Work (Tick [NetErr 0]),
        Work (Recv []), Work Elapsed, Work (Dial True), Emit ''d'', Work (Recv []),
        Work (Tick [])])) = [''a'', ''d'']"
  using survivors_keep_their_order [of
      "[Work (Dial True), Emit ''a'', Emit ''b'', Emit ''c'', Work (Recv []), Work (Tick []),
        Work (Recv [NetErr 0]), Work (Tick [NetErr 0]), Work (Recv []), Work Elapsed,
        Work (Dial True)]" "''statsite:8125''"
      "state_after [Work (Dial True), Emit ''a'', Emit ''b'', Emit ''c'', Work (Recv []),
        Work (Tick []), Work (Recv [NetErr 0]), Work (Tick [NetErr 0]), Work (Recv []),
        Work Elapsed, Work (Dial True)]"
      "[Emit ''d'', Work (Recv []), Work (Tick [])]"
      "state_after [Work (Dial True), Emit ''a'', Emit ''b'', Emit ''c'', Work (Recv []),
        Work (Tick []), Work (Recv [NetErr 0]), Work (Tick [NetErr 0]), Work (Recv []),
        Work Elapsed, Work (Dial True), Emit ''d'', Work (Recv []), Work (Tick [])]"]
  by (simp add: eval_defs written_def)

subsection \<open>After Shutdown\<close>

lemma is_recv_simps [simp]:
  "is_recv (Emit m) = False" "is_recv Close = False" "is_recv (Work (Dial ok)) = False"
  "is_recv (Work (Recv rs)) = True" "is_recv (Work (Tick rs)) = False"
  "is_recv (Work Elapsed) = False"
  by (simp_all add: is_recv_def)


lemma after_QUIT:
  assumes "run acts s = Next s'" and "pc (wk s) = QUIT" and "metricQueue (sink s) = None"
  shows "s' = s \<and> filter is_recv acts = []"
  using assms
proof (induction acts arbitrary: s)
  case Nil
  then show ?case by simp
next
  case (Cons a acts)
  then obtain s1 where s1: "sys_step a s = Next s1" "run acts s1 = Next s'"
    by (auto split: outcome.splits)
  have "s1 = s \<and> \<not> is_recv a"
  proof (cases a)
    case (Emit m)
    with s1(1) Cons.prems(3) show ?thesis
      by (simp add: sys_step_def pushMetric_def chan_send_def)
  next
    case Close
    with s1(1) Cons.prems(3) show ?thesis
      by (simp add: sys_step_def Shutdown_def chan_close_def)
  next
    case (Work ev)
    with s1(1) Cons.prems(2) show ?thesis
      by (simp add: sys_step_def flushMetrics_QUIT)
  qed
  with Cons.IH[of s1] s1(2) Cons.prems(2,3) show ?case by simp
qed

lemma closed_recv_enabled:
  assumes "sys_inv s" and "metricQueue (sink s) = Some c" and "closed c"
    and "pc (wk s) = STREAM \<or> pc (wk s) = WAIT"
  shows "\<exists>t. flushMetrics (Recv rs) s = Next t"
proof (cases "items c")
  case Nil
  with assms show ?thesis by (simp add: flushMetrics_Recv_closed)
next
  case (Cons m ms)
  show ?thesis
  proof (cases "pc (wk s) = WAIT")
    case True
    with assms(2) Cons show ?thesis by (simp add: flushMetrics_Recv_WAIT)
  next
    case False
    with assms(4) have st: "pc (wk s) = STREAM" by simp
    with assms(1) obtain w where w: "buffered (wk s) = Some w"
      by (cases "buffered (wk s)") (auto simp: sys_inv_def streaming_ok_def)
    obtain w' rs' cs' wok where "Write w m (rs, conns s) = (w', (rs', cs'), wok)"
      by (cases "Write w m (rs, conns s)") auto
    from flushMetrics_Recv_STREAM[OF st assms(2) Cons w this] show ?thesis by simp
  qed
qed

lemma closed_run:
  assumes "run acts s = Next s'" and "sys_inv s" and "metricQueue (sink s) = Some c"
    and "closed c" and "pc (wk s) \<noteq> QUIT"
  shows "enq s' = enq s
     \<and> (\<exists>ls. written s' = written s @ ls \<and> subseq ls (items c))
     \<and> length (filter is_recv acts) \<le> Suc (length (items c))
     \<and> (length (items c) < length (filter is_recv acts) \<longrightarrow> pc (wk s') = QUIT)
     \<and> (pc (wk s') \<noteq> QUIT \<longrightarrow> (\<exists>c'. metricQueue (sink s') = Some c' \<and> closed c'))"
  using assms
proof (induction acts arbitrary: s c)
  case Nil
  then show ?case by simp
next
  case (Cons a acts)
  then obtain s1 where s1: "sys_step a s = Next s1" "run acts s1 = Next s'"
    by (auto split: outcome.splits)
  note i1 = inv_step[OF s1(1) Cons.prems(2)]
  show ?case
  proof (cases a)
    case (Emit m)
    with s1(1) Cons.prems(3,4) show ?thesis
      by (simp add: sys_step_def pushMetric_def chan_send_def)
  next
    case Close
    with s1(1) Cons.prems(3,4) show ?thesis
      by (simp add: sys_step_def Shutdown_def chan_close_def)
  next
    case (Work ev)
    with s1(1) have fm: "flushMetrics ev s = Next s1"
      by (simp add: sys_step_def)
    then show ?thesis
    proof (cases rule: flushMetrics_cases)
      case (dial ok)
      with fm Cons.prems(3) have 1: "metricQueue (sink s1) = Some c" "pc (wk s1) \<noteq> QUIT"
        "enq s1 = enq s" "written s1 = written s"
        by (auto simp: flushMetrics_Dial written_def split: if_splits)
      from Cons.IH[OF s1(2) i1 1(1) Cons.prems(4) 1(2)] 1(3,4) Work dial(2)
      show ?thesis by simp
    next
      case (quit rs c0)
      with Cons.prems(3) have e: "items c = []" by simp
      have q: "pc (wk (quit s)) = QUIT" "metricQueue (sink (quit s)) = None"
        "enq (quit s) = enq s" "written (quit s) = written s"
        by (simp_all add: quit_def written_def closing_map)
      from after_QUIT[OF _ q(1,2)] s1(2) quit(6)
      have "s' = quit s" "filter is_recv acts = []" by simp_all
      with q e Work quit(2) show ?thesis by simp
    next
      case (wline rs c0 m ms w w' rs' cs' wok)
      with Cons.prems(3) have c0: "c0 = c" by simp
      note eff = write_effect[OF Cons.prems(2) wline(1,3,4,5,6) fm[unfolded wline(2)]]
      have 1: "metricQueue (sink s1) = Some (c\<lparr>items := ms\<rparr>)" "closed (c\<lparr>items := ms\<rparr>)"
        "pc (wk s1) \<noteq> QUIT"
        using eff(4,7) Cons.prems(4) c0 by (simp_all split: if_splits)
      from Cons.IH[OF s1(2) i1 1] obtain ls where
        ih: "enq s' = enq s1" "written s' = written s1 @ ls" "subseq ls ms"
          "length (filter is_recv acts) \<le> Suc (length ms)"
          "length ms < length (filter is_recv acts) \<longrightarrow> pc (wk s') = QUIT"
          "pc (wk s') \<noteq> QUIT \<longrightarrow> (\<exists>c'. metricQueue (sink s') = Some c' \<and> closed c')"
        by auto
      have "written s' = written s @ (m # ls)" "subseq (m # ls) (items c)"
        using ih(2,3) eff(3) wline(4) c0 by simp_all
      then have "\<exists>ls. written s' = written s @ ls \<and> subseq ls (items c)" by blast
      with ih eff(5) wline(4) c0 Work wline(2) show ?thesis
        by simp
    next
      case (tick rs w w' rs' cs' fok)
      note eff = tick_effect[OF Cons.prems(2) tick(1,3,4) fm[unfolded tick(2)]]
      have 1: "metricQueue (sink s1) = Some c" "pc (wk s1) \<noteq> QUIT"
        using eff(4,7) Cons.prems(3) by (simp_all split: if_splits)
      from Cons.IH[OF s1(2) i1 1(1) Cons.prems(4) 1(2)] eff(3,5) Work tick(2)
      show ?thesis by simp
    next
      case (drain rs c0 m ms)
      with Cons.prems(3) have c0: "c0 = c" by simp
      have s1': "s1 = s\<lparr>sink := (sink s)\<lparr>metricQueue := Some (c\<lparr>items := ms\<rparr>)\<rparr>,
                     deq := deq s @ [m]\<rparr>"
        using fm drain c0 by (simp add: flushMetrics_Recv_WAIT)
      have 1: "metricQueue (sink s1) = Some (c\<lparr>items := ms\<rparr>)" "closed (c\<lparr>items := ms\<rparr>)"
        "pc (wk s1) \<noteq> QUIT" "enq s1 = enq s" "written s1 = written s"
        using Cons.prems(4) drain(1) by (simp_all add: s1' written_def)
      from Cons.IH[OF s1(2) i1 1(1,2,3)] obtain ls where
        ih: "enq s' = enq s1" "written s' = written s1 @ ls" "subseq ls ms"
          "length (filter is_recv acts) \<le> Suc (length ms)"
          "length ms < length (filter is_recv acts) \<longrightarrow> pc (wk s') = QUIT"
          "pc (wk s') \<noteq> QUIT \<longrightarrow> (\<exists>c'. metricQueue (sink s') = Some c' \<and> closed c')"
        by auto
      have "written s' = written s @ ls" "subseq ls (items c)"
        using ih(2,3) 1(5) drain(4) c0 by (simp_all add: list_emb_Cons)
      then have "\<exists>ls. written s' = written s @ ls \<and> subseq ls (items c)" by blast
      with ih 1(4) drain(4) c0 Work drain(2) show ?thesis
        by simp
    next
      case elapsed
      with fm Cons.prems(3) have 1: "metricQueue (sink s1) = Some c" "pc (wk s1) \<noteq> QUIT"
        "enq s1 = enq s" "written s1 = written s"
        by (auto simp: flushMetrics_Elapsed written_def)
      from Cons.IH[OF s1(2) i1 1(1) Cons.prems(4) 1(2)] 1(3,4) Work elapsed(2)
      show ?thesis by simp
    qed
  qed
qed


lemma drain_to_QUIT:
  assumes "sys_inv s" and "metricQueue (sink s) = Some c" and "closed c"
    and "pc (wk s) = STREAM \<or> pc (wk s) = WAIT"
  shows "\<exists>t. run (replicate (Suc (length (items c))) (Work (Recv rs))) s = Next t
              \<and> pc (wk t) = QUIT"
  using assms
proof (induction "items c" arbitrary: s c)
  case Nil
  then have "flushMetrics (Recv rs) s = Next (quit s)"
    by (simp add: flushMetrics_Recv_closed)
  moreover have "pc (wk (quit s)) = QUIT"
    by (simp add: quit_def)
  ultimately show ?case
    using Nil(1)[symmetric] by (simp add: sys_step_def)
next
  case (Cons m ms)
  note it = Cons(2)[symmetric]
  have "\<exists>s1. flushMetrics (Recv rs) s = Next s1 \<and> sys_inv s1
          \<and> metricQueue (sink s1) = Some (c\<lparr>items := ms\<rparr>)
          \<and> (pc (wk s1) = STREAM \<or> pc (wk s1) = WAIT)"
  proof (cases "pc (wk s) = WAIT")
    case True
    let ?s1 = "s\<lparr>sink := (sink s)\<lparr>metricQueue := Some (c\<lparr>items := ms\<rparr>)\<rparr>,
                 deq := deq s @ [m]\<rparr>"
    have fm: "flushMetrics (Recv rs) s = Next ?s1"
      using True Cons.prems(2) it by (simp add: flushMetrics_Recv_WAIT)
    then have "sys_step (Work (Recv rs)) s = Next ?s1"
      by (simp add: sys_step_def)
    from inv_step[OF this Cons.prems(1)] fm True show ?thesis
      by simp
  next
    case False
    with Cons.prems(4) have st: "pc (wk s) = STREAM" by simp
    with Cons.prems(1) obtain w where w: "buffered (wk s) = Some w"
      by (cases "buffered (wk s)") (auto simp: sys_inv_def streaming_ok_def)
    obtain w' rs' cs' wok where wr: "Write w m (rs, conns s) = (w', (rs', cs'), wok)"
      by (cases "Write w m (rs, conns s)") auto
    from flushMetrics_Recv_STREAM[OF st Cons.prems(2) it w wr]
    obtain s1 where fm: "flushMetrics (Recv rs) s = Next s1" by simp
    then have "sys_step (Work (Recv rs)) s = Next s1"
      by (simp add: sys_step_def)
    note i1 = inv_step[OF this Cons.prems(1)]
    note eff = write_effect[OF Cons.prems(1) st Cons.prems(2) it w wr fm]
    from fm i1 eff(4,7) show ?thesis
      by (simp split: if_splits)
  qed
  then obtain s1 where s1: "flushMetrics (Recv rs) s = Next s1" "sys_inv s1"
    "metricQueue (sink s1) = Some (c\<lparr>items := ms\<rparr>)" "pc (wk s1) = STREAM \<or> pc (wk s1) = WAIT"
    by blast
  have "ms = items (c\<lparr>items := ms\<rparr>)" by simp
  from Cons(1)[OF this s1(2,3) _ s1(4)] Cons.prems(3)
  obtain t where "run (replicate (Suc (length ms)) (Work (Recv rs))) s1 = Next t"
    "pc (wk t) = QUIT"
    by auto
  with s1(1) it show ?case
    by (simp add: sys_step_def)
qed

lemma dial_leaves_CONNECT:
  "pc (wk s) = CONNECT \<Longrightarrow>
     \<exists>t. flushMetrics (Dial ok) s = Next t \<and> (pc (wk t) = STREAM \<or> pc (wk t) = WAIT)"
  by (simp add: flushMetrics_Dial)

text \<open>
  A line that is in the queue when \<open>Shutdown\<close> closes it is not a new one: it is still
  received (a closed Go channel hands out what it holds, with \<open>ok = true\<close>), written to
  the buffer and flushed to the connection.
\<close>

lemma queued_line_written_after_Shutdown:
  "run [Work (Dial True), Emit ''a'', Close] (start ''statsite:8125'') =
     Next (state_after [Work (Dial True), Emit ''a'', Close])
   \<and> queue_closed (sink (state_after [Work (Dial True), Emit ''a'', Close]))
   \<and> map wire (conns (state_after [Work (Dial True), Emit ''a'', Close])) = [[]]
   \<and> written (state_after [Work (Dial True), Emit ''a'', Close]) = []
   \<and> run [Work (Recv []), Work (Tick [])] (state_after [Work (Dial True), Emit ''a'', Close]) =
       Next (state_after [Work (Dial True), Emit ''a'', Close, Work (Recv []), Work (Tick [])])
   \<and> written (state_after [Work (Dial True), Emit ''a'', Close, Work (Recv []),
         Work (Tick [])]) = [''a'']
   \<and> map wire (conns (state_after [Work (Dial True), Emit ''a'', Close, Work (Recv []),
         Work (Tick [])])) = [''a'']"
  by (simp add: eval_defs queue_closed_def written_def)

text \<open>
  C6 says that after \<open>Shutdown\<close> the worker reaches \<open>TERMINATED\<close> within one drain cycle.
  When \<open>Shutdown\<close> closes the queue while the worker is in the loop at \<open>WAIT\<close> and the
  select then takes the elapsed timer, which is as ready as the closed queue, the worker
  leaves the drain for \<open>CONNECT\<close> without terminating; it dials again, and after a failed
  dial it is in a second drain, the queue closed all the while.
\<close>

theorem worker_redials_after_Shutdown:
  "run [Work (Dial False), Emit ''a'', Close] (start ''h:1'') =
     Next \<lparr>sink = \<lparr>addr = ''h:1'',
                    metricQueue = Some \<lparr>cap = 4096, items = [''a''], closed = True\<rparr>\<rparr>,
           wk = \<lparr>pc = WAIT, sock = None, buffered = None, deferred = []\<rparr>,
           conns = [], logs = [ErrConnecting], enq = [''a''], deq = []\<rparr>
   \<and> run [Work (Dial False), Emit ''a'', Close, Work Elapsed] (start ''h:1'') =
     Next \<lparr>sink = \<lparr>addr = ''h:1'',
                    metricQueue = Some \<lparr>cap = 4096, items = [''a''], closed = True\<rparr>\<rparr>,
           wk = \<lparr>pc = CONNECT, sock = None, buffered = None, deferred = []\<rparr>,
           conns = [], logs = [ErrConnecting], enq = [''a''], deq = []\<rparr>
   \<and> run [Work (Dial False), Emit ''a'', Close, Work Elapsed, Work (Dial False)]
        (start ''h:1'') =
     Next \<lparr>sink = \<lparr>addr = ''h:1'',
                    metricQueue = Some \<lparr>cap = 4096, items = [''a''], closed = True\<rparr>\<rparr>,
           wk = \<lparr>pc = WAIT, sock = None, buffered = None, deferred = []\<rparr>,
           conns = [], logs = [ErrConnecting, ErrConnecting], enq = [''a''], deq = []\<rparr>"
  by (simp add: eval_defs)

text \<open>
  C6, amended: once \<open>Shutdown\<close> has closed the queue, the worker has not returned yet, and
  in every run that goes on from there without a panic no new line is written to any
  connection: no further line is accepted by the queue, the lines handed to the writers
  of the connections from then on are lines that were in the queue at the close, in their
  order, every line ever handed to a writer was accepted before the close, and what a
  connection has carried is a prefix of the lines handed to its writer. The worker
  terminates by receiving: every run with more receives than lines waiting at the close
  ends with the worker at \<open>QUIT\<close>, in the streaming loop and in the loop at \<open>WAIT\<close> a
  receive is never blocked once the queue is closed, and from either loop as many receives
  in a row as lines are waiting, and one more, take the worker to \<open>QUIT\<close>. It need not be
  within the drain in which the queue was closed: the worker that is at \<open>CONNECT\<close> (again)
  first dials, and is in one of the two loops after that.
\<close>

theorem after_Shutdown:
  "run pre (start a) = Next s \<and> metricQueue (sink s) = Some c \<and> closed c \<longrightarrow>
     pc (wk s) \<noteq> QUIT
     \<and> (run acts s = Next s' \<longrightarrow>
          enq s' = enq s
          \<and> (\<exists>ls. written s' = written s @ ls \<and> subseq ls (items c))
          \<and> subseq (written s') (enq s)
          \<and> list_all (\<lambda>k. prefix (wire k) (concat (lines_in k))) (conns s')
          \<and> (length (items c) < length (filter is_recv acts) \<longrightarrow> pc (wk s') = QUIT)
          \<and> (pc (wk s') = STREAM \<or> pc (wk s') = WAIT \<longrightarrow>
               (\<exists>t. flushMetrics (Recv rs) s' = Next t)))
     \<and> (pc (wk s) = STREAM \<or> pc (wk s) = WAIT \<longrightarrow>
          (\<exists>t. run (replicate (Suc (length (items c))) (Work (Recv rs))) s = Next t
               \<and> pc (wk t) = QUIT))
     \<and> (pc (wk s) = CONNECT \<longrightarrow>
          (\<exists>t. flushMetrics (Dial ok) s = Next t
               \<and> (pc (wk t) = STREAM \<or> pc (wk t) = WAIT)))"
proof (intro impI)
  assume h: "run pre (start a) = Next s \<and> metricQueue (sink s) = Some c \<and> closed c"
  from h reachable_both[of pre a s] have i: "sys_inv s" "ctl_inv s" by simp_all
  from i(2) h have nq: "pc (wk s) \<noteq> QUIT" by (simp add: ctl_inv_def)
  from h have q: "metricQueue (sink s) = Some c" "closed c"
    by simp_all
  have runs: "run acts s = Next s' \<longrightarrow>
          enq s' = enq s
          \<and> (\<exists>ls. written s' = written s @ ls \<and> subseq ls (items c))
          \<and> subseq (written s') (enq s)
          \<and> list_all (\<lambda>k. prefix (wire k) (concat (lines_in k))) (conns s')
          \<and> (length (items c) < length (filter is_recv acts) \<longrightarrow> pc (wk s') = QUIT)
          \<and> (pc (wk s') = STREAM \<or> pc (wk s') = WAIT \<longrightarrow>
               (\<exists>t. flushMetrics (Recv rs) s' = Next t))"
  proof
    assume r: "run acts s = Next s'"
    note cr = closed_run[OF r i(1) q nq]
    have i': "sys_inv s'"
      by (rule run_invariant[where P = sys_inv, OF r i(1) inv_step])
    have en: "pc (wk s') = STREAM \<or> pc (wk s') = WAIT \<longrightarrow>
            (\<exists>t. flushMetrics (Recv rs) s' = Next t)"
    proof
      assume p: "pc (wk s') = STREAM \<or> pc (wk s') = WAIT"
      then have "pc (wk s') \<noteq> QUIT" by auto
      with cr obtain c' where "metricQueue (sink s') = Some c'" "closed c'" by auto
      from closed_recv_enabled[OF i' this p] show "\<exists>t. flushMetrics (Recv rs) s' = Next t" .
    qed
    from i' have "subseq (written s') (deq s')" "enq s' = deq s' @ qitems (sink s')"
      by (simp_all add: sys_inv_def)
    then have "subseq (written s') (enq s')"
      by (simp add: list_emb_prefix)
    with cr have acc: "subseq (written s') (enq s)"
      by simp
    from i' have pre: "list_all (\<lambda>k. prefix (wire k) (concat (lines_in k))) (conns s')"
      by (simp add: sys_inv_def)
    from cr en acc pre show "enq s' = enq s
          \<and> (\<exists>ls. written s' = written s @ ls \<and> subseq ls (items c))
          \<and> subseq (written s') (enq s)
          \<and> list_all (\<lambda>k. prefix (wire k) (concat (lines_in k))) (conns s')
          \<and> (length (items c) < length (filter is_recv acts) \<longrightarrow> pc (wk s') = QUIT)
          \<and> (pc (wk s') = STREAM \<or> pc (wk s') = WAIT \<longrightarrow>
               (\<exists>t. flushMetrics (Recv rs) s' = Next t))"
      by simp
  qed
  have drain: "pc (wk s) = STREAM \<or> pc (wk s) = WAIT \<longrightarrow>
          (\<exists>t. run (replicate (Suc (length (items c))) (Work (Recv rs))) s = Next t
               \<and> pc (wk t) = QUIT)"
    using drain_to_QUIT[OF i(1) q] by blast
  have dial: "pc (wk s) = CONNECT \<longrightarrow>
          (\<exists>t. flushMetrics (Dial ok) s = Next t
               \<and> (pc (wk t) = STREAM \<or> pc (wk t) = WAIT))"
    using dial_leaves_CONNECT by blast
  from nq runs drain dial show "pc (wk s) \<noteq> QUIT
     \<and> (run acts s = Next s' \<longrightarrow>
          enq s' = enq s
          \<and> (\<exists>ls. written s' = written s @ ls \<and> subseq ls (items c))
          \<and> subseq (written s') (enq s)
          \<and> list_all (\<lambda>k. prefix (wire k) (concat (lines_in k))) (conns s')
          \<and> (length (items c) < length (filter is_recv acts) \<longrightarrow> pc (wk s') = QUIT)
          \<and> (pc (wk s') = STREAM \<or> pc (wk s') = WAIT \<longrightarrow>
               (\<exists>t. flushMetrics (Recv rs) s' = Next t)))
     \<and> (pc (wk s) = STREAM \<or> pc (wk s) = WAIT \<longrightarrow>
          (\<exists>t. run (replicate (Suc (length (items c))) (Work (Recv rs))) s = Next t
               \<and> pc (wk t) = QUIT))
     \<and> (pc (wk s) = CONNECT \<longrightarrow>
          (\<exists>t. flushMetrics (Dial ok) s = Next t
               \<and> (pc (wk t) = STREAM \<or> pc (wk t) = WAIT)))"
    by blast
qed

theorem after_Shutdown_witness:
  "run [Work (Dial True), Emit ''a'', Emit ''b'', Close] (start ''statsite:8125'') =
     Next (state_after [Work (Dial True), Emit ''a'', Emit ''b'', Close])
   \<and> qitems (sink (state_after [Work (Dial True), Emit ''a'', Emit ''b'', Close])) = [''a'', ''b'']
   \<and> queue_closed (sink (state_after [Work (Dial True), Emit ''a'', Emit ''b'', Close]))
   \<and> pc (wk (state_after [Work (Dial True), Emit ''a'', Emit ''b'', Close])) = STREAM
   \<and> run [Work (Recv []), Work (Tick []), Work (Recv []), Work (Recv [])]
        (state_after [Work (Dial True), Emit ''a'', Emit ''b'', Close]) =
       Next (state_after [Work (Dial True), Emit ''a'', Emit ''b'', Close, Work (Recv []),
               Work (Tick []), Work (Recv []), Work (Recv [])])
   \<and> length (filter is_recv [Work (Recv []), Work (Tick []), Work (Recv []), Work (Recv [])]) = 3
   \<and> pc (wk (state_after [Work (Dial True), Emit ''a'', Emit ''b'', Close, Work (Recv []),
               Work (Tick []), Work (Recv []), Work (Recv [])])) = QUIT
   \<and> written (state_after [Work (Dial True), Emit ''a'', Emit ''b'', Close, Work (Recv []),
               Work (Tick []), Work (Recv []), Work (Recv [])]) = [''a'', ''b'']
   \<and> enq (state_after [Work (Dial True), Emit ''a'', Emit ''b'', Close, Work (Recv []),
               Work (Tick []), Work (Recv []), Work (Recv [])]) = [''a'', ''b'']
   \<and> run [Work (Recv []), Work (Recv []), Work (Recv [])]
        (state_after [Work (Dial True), Emit ''a'', Emit ''b'', Close]) =
       Next (state_after [Work (Dial True), Emit ''a'', Emit ''b'', Close, Work (Recv []),
               Work (Recv []), Work (Recv [])])
   \<and> pc (wk (state_after [Work (Dial True), Emit ''a'', Emit ''b'', Close, Work (Recv []),
               Work (Recv []), Work (Recv [])])) = QUIT
   \<and> run [Close] (start ''statsite:8125'') = Next (state_after [Close])
   \<and> queue_closed (sink (state_after [Close]))
   \<and> pc (wk (state_after [Close])) = CONNECT
   \<and> flushMetrics (Dial False) (state_after [Close]) =
       Next (state_after [Close, Work (Dial False)])
   \<and> pc (wk (state_after [Close, Work (Dial False)])) = WAIT"
  using after_Shutdown [of "[Work (Dial True), Emit ''a'', Emit ''b'', Close]" "''statsite:8125''"
      "state_after [Work (Dial True), Emit ''a'', Emit ''b'', Close]"
      "\<lparr>cap = 4096, items = [''a'', ''b''], closed = True\<rparr>"
      "[Work (Recv []), Work (Tick []), Work (Recv []), Work (Recv [])]"
      "state_after [Work (Dial True), Emit ''a'', Emit ''b'', Close, Work (Recv []),
               Work (Tick []), Work (Recv []), Work (Recv [])]" "[]" "True"]
    after_Shutdown [of "[Close]" "''statsite:8125''" "state_after [Close]"
      "\<lparr>cap = 4096, items = [], closed = True\<rparr>" "[]" "state_after [Close]" "[]" "False"]
  by (simp add: eval_defs qitems_def queue_closed_def written_def)

subsection \<open>The bytes left in the buffer\<close>

lemma Write_fits:
  "length (buf w) + length p \<le> bufSize \<Longrightarrow> Write w p nt =
     (if werr w then (w, nt, False) else (w\<lparr>buf := buf w @ p\<rparr>, nt, True))"
  by (simp add: Write_def Write_loop_stop)

lemma close_conn_nth:
  "i < length cs \<Longrightarrow> is_open (close_conn cs d ! i) = (is_open (cs ! i) \<and> i \<noteq> d)"
  by (auto simp: close_conn_def nth_list_update)

lemma closing_nth:
  "i < length cs \<Longrightarrow> is_open (foldl close_conn cs ds ! i) = (is_open (cs ! i) \<and> i \<notin> set ds)"
proof (induction ds arbitrary: cs)
  case Nil
  then show ?case by simp
next
  case (Cons d ds)
  have "i < length (close_conn cs d)" using Cons.prems by (simp add: close_conn_def)
  from Cons.IH[OF this] show ?case
    using Cons.prems by (auto simp: close_conn_nth)
qed

lemma quit_closes_all:
  assumes "ctl_inv s"
  shows "list_all (\<lambda>c. \<not> is_open c) (conns (quit s))"
  using assms
  by (auto simp: list_all_length quit_def ctl_inv_def closing_nth)

lemma note_line_wire: "map wire (note_line i m cs) = map wire cs"
  by (simp add: note_line_def map_update list_update_same_conv)

text \<open>
  C10 says that bytes written into the buffer and not flushed by a timer fire are never sent,
  since flushes happen on ticker fires only. The worker calls \<open>Flush\<close> on ticker fires
  only, but the buffered writer sends on its own when a write does not fit into its 4096
  bytes: a line of 4000 bytes and one of 100 bytes put 4096 bytes on the wire, with no tick
  in the run.
\<close>

theorem buffer_overflow_sends_without_tick:
  "run [Work (Dial True), Emit (replicate 4000 CHR ''a''), Emit (replicate 100 CHR ''b''),
        Work (Recv []), Work (Recv []), Close, Work (Recv [])] (start ''statsite:8125'') =
     Next (state_after [Work (Dial True), Emit (replicate 4000 CHR ''a''),
        Emit (replicate 100 CHR ''b''), Work (Recv []), Work (Recv []), Close, Work (Recv [])])
   \<and> filter is_tick [Work (Dial True), Emit (replicate 4000 CHR ''a''),
        Emit (replicate 100 CHR ''b''), Work (Recv []), Work (Recv []), Close,
        Work (Recv [])] = []
   \<and> pc (wk (state_after [Work (Dial True), Emit (replicate 4000 CHR ''a''),
        Emit (replicate 100 CHR ''b''), Work (Recv []), Work (Recv []), Close,
        Work (Recv [])])) = QUIT
   \<and> conns (state_after [Work (Dial True), Emit (replicate 4000 CHR ''a''),
        Emit (replicate 100 CHR ''b''), Work (Recv []), Work (Recv []), Close,
        Work (Recv [])]) =
      [\<lparr>wire = replicate 4000 CHR ''a'' @ replicate 96 CHR ''b'',
        lines_in = [replicate 4000 CHR ''a'', replicate 100 CHR ''b''], is_open = False\<rparr>]
   \<and> buffered (wk (state_after [Work (Dial True), Emit (replicate 4000 CHR ''a''),
        Emit (replicate 100 CHR ''b''), Work (Recv []), Work (Recv []), Close,
        Work (Recv [])])) = Some \<lparr>wr = 0, buf = replicate 4 CHR ''b'', werr = False\<rparr>"
  by (simp add: eval_defs is_tick_def)


text \<open>
  C10, amended: when the worker, in the streaming loop, finds the queue closed and empty, it
  goes to \<open>QUIT\<close> at once and flushes nothing: no wire changes, the buffer keeps its
  bytes, every connection is closed by the deferred calls, and nothing happens to the state
  afterwards, so the bytes that are in the buffer at that moment are never sent. Apart from
  the flush at a tick, bytes reach the wire only when a write overflows the buffer: a line
  that fits into the free part of the buffer leaves every wire as it is.
\<close>

theorem no_flush_when_closed:
  "(run pre (start a) = Next s \<and> pc (wk s) = STREAM \<and> metricQueue (sink s) = Some c
    \<and> closed c \<and> items c = [] \<longrightarrow>
      flushMetrics (Recv rs) s = Next (quit s)
      \<and> pc (wk (quit s)) = QUIT
      \<and> buffered (wk (quit s)) = buffered (wk s)
      \<and> map wire (conns (quit s)) = map wire (conns s)
      \<and> list_all (\<lambda>c. \<not> is_open c) (conns (quit s))
      \<and> (run acts (quit s) = Next s' \<longrightarrow> s' = quit s))
   \<and> (pc (wk s) = STREAM \<and> metricQueue (sink s) = Some c \<and> items c = m # ms
       \<and> buffered (wk s) = Some w \<and> length (buf w) + length m \<le> bufSize
       \<and> flushMetrics (Recv rs) s = Next t \<longrightarrow>
         map wire (conns t) = map wire (conns s))"
proof (intro conjI impI)
  assume h: "run pre (start a) = Next s \<and> pc (wk s) = STREAM \<and> metricQueue (sink s) = Some c
    \<and> closed c \<and> items c = []"
  then show "flushMetrics (Recv rs) s = Next (quit s)"
    by (simp add: flushMetrics_Recv_closed)
  show q: "pc (wk (quit s)) = QUIT" by (simp add: quit_def)
  show "buffered (wk (quit s)) = buffered (wk s)" by (simp add: quit_def)
  show "map wire (conns (quit s)) = map wire (conns s)" by (rule quit_wires)
  from h reachable_both[of pre a s] have "ctl_inv s" by simp
  then show "list_all (\<lambda>c. \<not> is_open c) (conns (quit s))" by (rule quit_closes_all)
  assume "run acts (quit s) = Next s'"
  from after_QUIT[OF this q] show "s' = quit s" by (simp add: quit_def)
next
  assume h: "pc (wk s) = STREAM \<and> metricQueue (sink s) = Some c \<and> items c = m # ms
       \<and> buffered (wk s) = Some w \<and> length (buf w) + length m \<le> bufSize
       \<and> flushMetrics (Recv rs) s = Next t"
  then have wf: "Write w m (rs, conns s) =
      (if werr w then (w, (rs, conns s), False) else (w\<lparr>buf := buf w @ m\<rparr>, (rs, conns s), True))"
    by (simp add: Write_fits)
  show "map wire (conns t) = map wire (conns s)"
  proof (cases "werr w")
    case True
    with wf have "Write w m (rs, conns s) = (w, (rs, conns s), False)" by simp
    from flushMetrics_Recv_STREAM[OF _ _ _ _ this, of c ms] h show ?thesis
      by (auto simp: note_line_wire)
  next
    case False
    with wf have "Write w m (rs, conns s) = (w\<lparr>buf := buf w @ m\<rparr>, (rs, conns s), True)" by simp
    from flushMetrics_Recv_STREAM[OF _ _ _ _ this, of c ms] h show ?thesis
      by (auto simp: note_line_wire)
  qed
qed



theorem no_flush_when_closed_witness:
  "run [Work (Dial True), Emit ''a'', Work (Recv []), Close] (start ''statsite:8125'') =
     Next (state_after [Work (Dial True), Emit ''a'', Work (Recv []), Close])
   \<and> pc (wk (state_after [Work (Dial True), Emit ''a'', Work (Recv []), Close])) = STREAM
   \<and> queue_closed (sink (state_after [Work (Dial True), Emit ''a'', Work (Recv []), Close]))
   \<and> qitems (sink (state_after [Work (Dial True), Emit ''a'', Work (Recv []), Close])) = []
   \<and> flushMetrics (Recv [])
        (state_after [Work (Dial True), Emit ''a'', Work (Recv []), Close]) =
       Next (quit (state_after [Work (Dial True), Emit ''a'', Work (Recv []), Close]))
   \<and> buffered (wk (quit (state_after [Work (Dial True), Emit ''a'', Work (Recv []), Close]))) =
       Some \<lparr>wr = 0, buf = ''a'', werr = False\<rparr>
   \<and> conns (quit (state_after [Work (Dial True), Emit ''a'', Work (Recv []), Close])) =
       [\<lparr>wire = [], lines_in = [''a''], is_open = False\<rparr>]
   \<and> run [Emit ''b'', Emit ''c'']
        (quit (state_after [Work (Dial True), Emit ''a'', Work (Recv []), Close])) =
       Next (quit (state_after [Work (Dial True), Emit ''a'', Work (Recv []), Close]))
   \<and> pc (wk (state_after [Work (Dial True), Emit ''a''])) = STREAM
   \<and> flushMetrics (Recv []) (state_after [Work (Dial True), Emit ''a'']) =
       Next (state_after [Work (Dial True), Emit ''a'', Work (Recv [])])
   \<and> map wire (conns (state_after [Work (Dial True), Emit ''a'', Work (Recv [])])) = [[]]"
  using no_flush_when_closed [of "[Work (Dial True), Emit ''a'', Work (Recv []), Close]"
      "''statsite:8125''" "state_after [Work (Dial True), Emit ''a'', Work (Recv []), Close]"
      "\<lparr>cap = 4096, items = [], closed = True\<rparr>" "[]" "[Emit ''b'', Emit ''c'']"
      "quit (state_after [Work (Dial True), Emit ''a'', Work (Recv []), Close])"]
    no_flush_when_closed [of pre a "state_after [Work (Dial True), Emit ''a'']"
      "\<lparr>cap = 4096, items = [''a''], closed = False\<rparr>" "[]" acts s' "''a''" "[]"
      "\<lparr>wr = 0, buf = [], werr = False\<rparr>"
      "state_after [Work (Dial True), Emit ''a'', Work (Recv [])]"]
  by (simp add: eval_defs qitems_def queue_closed_def)


subsection \<open>A failed write and its connection\<close>

text \<open>
  C5: when the write of a received line fails, the worker logs the error and goes to
  \<open>WAIT\<close>; the connection is meant to be closed and given up there. In the code
  \<open>sock.Close()\<close> is deferred, and a deferred call runs when \<open>flushMetrics\<close> returns:
  after the failed write the connection is still open, it is still open when the next
  connection has been dialled, and it is closed only when the worker quits.
\<close>

theorem failed_write_leaves_connection_open:
  "run [Work (Dial True), Emit (replicate 4097 CHR ''x''), Work (Recv [NetErr 0])]
       (start ''statsite:8125'') =
     Next (state_after [Work (Dial True), Emit (replicate 4097 CHR ''x''),
            Work (Recv [NetErr 0])])
   \<and> pc (wk (state_after [Work (Dial True), Emit (replicate 4097 CHR ''x''),
            Work (Recv [NetErr 0])])) = WAIT
   \<and> logs (state_after [Work (Dial True), Emit (replicate 4097 CHR ''x''),
            Work (Recv [NetErr 0])]) = [ErrWriting]
   \<and> sock (wk (state_after [Work (Dial True), Emit (replicate 4097 CHR ''x''),
            Work (Recv [NetErr 0])])) = Some 0
   \<and> map is_open (conns (state_after [Work (Dial True), Emit (replicate 4097 CHR ''x''),
            Work (Recv [NetErr 0])])) = [True]
   \<and> run [Work Elapsed, Work (Dial True)]
        (state_after [Work (Dial True), Emit (replicate 4097 CHR ''x''),
            Work (Recv [NetErr 0])]) =
       Next (state_after [Work (Dial True), Emit (replicate 4097 CHR ''x''),
            Work (Recv [NetErr 0]), Work Elapsed, Work (Dial True)])
   \<and> map is_open (conns (state_after [Work (Dial True), Emit (replicate 4097 CHR ''x''),
            Work (Recv [NetErr 0]), Work Elapsed, Work (Dial True)])) = [True, True]
   \<and> map is_open (conns (state_after [Work (Dial True), Emit (replicate 4097 CHR ''x''),
            Work (Recv [NetErr 0]), Work Elapsed, Work (Dial True), Close,
            Work (Recv [])])) = [False, False]"
  by (simp add: eval_defs)

subsection \<open>Further properties of the worker and the queue\<close>

lemma no_crash:
  assumes "sys_inv s"
  shows "flushMetrics ev s \<noteq> Crash p"
proof (cases "pc (wk s)")
  case CONNECT
  then show ?thesis by (cases ev) (simp_all add: flushMetrics_def)
next
  case STREAM
  with assms obtain w where w: "buffered (wk s) = Some w"
    by (cases "buffered (wk s)") (auto simp: sys_inv_def streaming_ok_def)
  show ?thesis
  proof (cases ev)
    case (Recv rs)
    with STREAM w show ?thesis
      by (auto simp: flushMetrics_def chan_recv_def
          split: option.splits list.splits prod.splits)
  next
    case (Tick rs)
    with STREAM w show ?thesis
      by (auto simp: flushMetrics_def split: prod.splits)
  qed (use STREAM in \<open>simp_all add: flushMetrics_def\<close>)
next
  case WAIT
  then show ?thesis
    by (cases ev)
       (auto simp: flushMetrics_def chan_recv_def split: option.splits list.splits)
next
  case QUIT
  then show ?thesis by (simp add: flushMetrics_def)
qed

text \<open>
  X1: in no reachable state does a step of the worker panic: the receive is from a channel
  that is open or closed, never sends, and the writer is there whenever the worker streams.
\<close>

theorem worker_never_panics:
  "run acts (start a) = Next s \<longrightarrow> flushMetrics ev s \<noteq> Crash p"
  using no_crash reachable_inv by blast

theorem worker_never_panics_witness:
  "run [Work (Dial True), Emit ''a''] (start ''statsite:8125'') =
     Next (state_after [Work (Dial True), Emit ''a''])
   \<and> flushMetrics (Recv []) (state_after [Work (Dial True), Emit ''a'']) \<noteq>
       Crash NilDereference"
  using worker_never_panics [of "[Work (Dial True), Emit ''a'']" "''statsite:8125''"
      "state_after [Work (Dial True), Emit ''a'']" "Recv []" NilDereference]
  by (simp add: eval_defs)

text \<open>
  X2: \<open>Shutdown\<close> is not idempotent. A second \<open>Shutdown\<close> closes a closed channel and
  panics, and a \<open>Shutdown\<close> after the worker has returned closes the \<open>nil\<close> channel and
  panics.
\<close>

theorem second_Shutdown_panics:
  "run [Close, Close] (start a) = Crash CloseOfClosedChannel
   \<and> run [Close, Work (Dial False), Work (Recv []), Close] (start a) = Crash CloseOfNilChannel"
  by (simp add: sys_step_def start_def NewStatsiteSink_def Shutdown_def chan_close_def
      flushMetrics_def chan_recv_def quit_def)

text \<open>X3: in every reachable state the queue holds at most 4096 lines.\<close>

theorem queue_within_capacity:
  "run acts (start a) = Next s \<longrightarrow> chan_len (metricQueue (sink s)) \<le> 4096"
proof
  assume r: "run acts (start a) = Next s"
  show "chan_len (metricQueue (sink s)) \<le> 4096"
  proof (cases "metricQueue (sink s)")
    case None
    then show ?thesis by (simp add: chan_len_def)
  next
    case (Some c)
    from reachable_queue_cap[OF r Some] Some show ?thesis by (simp add: chan_len_def)
  qed
qed

theorem queue_within_capacity_witness:
  "run [Emit ''a'', Emit ''b''] (start ''statsite:8125'') =
     Next (state_after [Emit ''a'', Emit ''b''])
   \<and> chan_len (metricQueue (sink (state_after [Emit ''a'', Emit ''b'']))) = 2"
  using queue_within_capacity [of "[Emit ''a'', Emit ''b'']" "''statsite:8125''"
      "state_after [Emit ''a'', Emit ''b'']"]
  by (simp add: eval_defs chan_len_def)

text \<open>
  X4: the queue is first in, first out and loses nothing it has accepted: the lines it has
  accepted are the lines the worker has received, in that order, followed by the lines
  still waiting.
\<close>

theorem queue_is_FIFO:
  "run acts (start a) = Next s \<longrightarrow> enq s = deq s @ qitems (sink s)"
  using reachable_inv by (auto simp: sys_inv_def)

theorem queue_is_FIFO_witness:
  "run [Emit ''a'', Emit ''b'', Work (Dial False), Work (Recv []), Emit ''c'']
       (start ''statsite:8125'') =
     Next (state_after [Emit ''a'', Emit ''b'', Work (Dial False), Work (Recv []), Emit ''c''])
   \<and> enq (state_after [Emit ''a'', Emit ''b'', Work (Dial False), Work (Recv []), Emit ''c'']) =
       [''a'', ''b'', ''c'']
   \<and> deq (state_after [Emit ''a'', Emit ''b'', Work (Dial False), Work (Recv []), Emit ''c'']) =
       [''a'']
   \<and> qitems (sink (state_after [Emit ''a'', Emit ''b'', Work (Dial False), Work (Recv []),
         Emit ''c''])) = [''b'', ''c'']"
  using queue_is_FIFO [of "[Emit ''a'', Emit ''b'', Work (Dial False), Work (Recv []), Emit ''c'']"
      "''statsite:8125''"
      "state_after [Emit ''a'', Emit ''b'', Work (Dial False), Work (Recv []), Emit ''c'']"]
  by (simp add: eval_defs qitems_def)

end
